theory Spec2Isabelle
  imports Main "HOL-Library.Word" "HOL-Library.Sublist"
begin

section \<open>Data model\<close>

text \<open>
  The driver \<^verbatim>\<open>src/main.cpp\<close> builds a vector of transactions, each a
  \<^verbatim>\<open>std::array<Object, numObjects>\<close>, and hands every one of them to the FPGA proxy.
  The struct \<^verbatim>\<open>Object\<close> and the integer type \<^verbatim>\<open>ObjectAddress\<close> come from a
  generated header that is not part of the sources. The driver builds objects with the
  C99 compound literal \<^verbatim>\<open>(Object){.valid = .., .write = .., .object = ..}\<close>, so
  \<^verbatim>\<open>Object\<close> is a C struct of these three fields. The width of \<^verbatim>\<open>ObjectAddress\<close> is
  left open: the field \<open>object\<close> is an \<open>'a word\<close> for any length \<open>'a\<close>, and every value
  stored in it goes through \<open>ucast\<close>, the implicit integer conversion of C++.
  The field \<^verbatim>\<open>write\<close> is called \<open>write_flag\<close> here.
\<close>

record 'a Object =
  valid :: bool
  write_flag :: bool
  object :: 'a

definition numObjects :: nat where
  "numObjects = 16"

text \<open>
  \<^verbatim>\<open>std::array<Object, numObjects> objs;\<close> (lines 65 and 120) declares the array
  without an initialiser. For an array of such structs this initialises nothing: every
  element is indeterminate until it is assigned. What a freshly declared array
  happens to hold is therefore an input of the model: \<open>uninit n k\<close> is the content of
  slot \<open>k\<close> of the array declared while the vector \<^verbatim>\<open>tests\<close> has \<open>n\<close> elements. Each
  array is declared once per pushed transaction, so \<open>n\<close> identifies the declaration
  within one run.
\<close>

definition fresh_objs :: "(nat \<Rightarrow> nat \<Rightarrow> 'o) \<Rightarrow> nat \<Rightarrow> 'o list" where
  "fresh_objs uninit n = map (uninit n) [0..<numObjects]"

text \<open>
  \<^verbatim>\<open>objs[k] = v\<close> on a \<^verbatim>\<open>std::array\<close> performs no bounds check; with \<open>k\<close> past the
  end the behaviour is undefined. The model makes such a store a fault of its own
  instead of dropping it.
\<close>

datatype fault = WritePastEnd nat

definition store :: "nat \<Rightarrow> 'o \<Rightarrow> 'o list \<Rightarrow> fault + 'o list" where
  "store k v objs = (if k < length objs then Inr (objs[k := v]) else Inl (WritePastEnd k))"

section \<open>The default tests (main.cpp, lines 60 to 82)\<close>

text \<open>
  The three locals \<^verbatim>\<open>numTests\<close>, \<^verbatim>\<open>maxScheduledObjects\<close> and \<^verbatim>\<open>objSetSize\<close> are
  \<^verbatim>\<open>unsigned\<close>, as are the counters \<^verbatim>\<open>i\<close> and \<^verbatim>\<open>j\<close>: 32-bit words whose arithmetic
  wraps. The two loops are functions of the three locals; \<open>default_tests\<close> below binds
  them to the values of the source.
\<close>

definition write_target :: "32 word \<Rightarrow> 32 word \<Rightarrow> 32 word \<Rightarrow> 32 word" where
  "write_target objSetSize i j =
     (if i mod 4 = 0 then objSetSize * i * 2 + j * 2 + 1
      else if i mod 4 = 1 then objSetSize * (i - i mod 2) * 2 + j * 2 + 1
      else if i mod 4 = 2 then objSetSize * (i mod 2) * 2 + j * 2 + 1
      else objSetSize * 2 + j * 2 + 1)"

function fill_objs ::
  "32 word \<Rightarrow> 32 word \<Rightarrow> 32 word \<Rightarrow> ('a::len) word Object list
     \<Rightarrow> fault + 'a word Object list" where
  "fill_objs objSetSize i j objs =
     (if j < objSetSize then
        (case store (unat (2 * j))
                \<lparr>valid = True, write_flag = False,
                 object = ucast (objSetSize * i * 2 + j * 2)\<rparr> objs of
           Inl f \<Rightarrow> Inl f
         | Inr objs1 \<Rightarrow>
             (case store (unat (2 * j + 1))
                     \<lparr>valid = True, write_flag = True,
                      object = ucast (write_target objSetSize i j)\<rparr> objs1 of
                Inl f \<Rightarrow> Inl f
              | Inr objs2 \<Rightarrow> fill_objs objSetSize i (j + 1) objs2))
      else Inr objs)"
  by pat_completeness auto
termination
  by (relation "measure (\<lambda>(objSetSize, i, j, objs). unat objSetSize - unat j)")
     (simp, unat_arith)

function gen_tests ::
  "32 word \<Rightarrow> 32 word \<Rightarrow> 32 word \<Rightarrow> (nat \<Rightarrow> nat \<Rightarrow> ('a::len) word Object) \<Rightarrow> 32 word
     \<Rightarrow> 'a word Object list list \<Rightarrow> fault + 'a word Object list list" where
  "gen_tests numTests maxScheduledObjects objSetSize uninit i tests =
     (if i < numTests * maxScheduledObjects then
        (case fill_objs objSetSize i 0 (fresh_objs uninit (length tests)) of
           Inl f \<Rightarrow> Inl f
         | Inr objs \<Rightarrow>
             gen_tests numTests maxScheduledObjects objSetSize uninit (i + 1)
               (tests @ [objs]))
      else Inr tests)"
  by pat_completeness auto
termination
  by (relation "measure (\<lambda>(numTests, maxScheduledObjects, objSetSize, uninit, i, tests).
                   unat (numTests * maxScheduledObjects) - unat i)")
     (simp, unat_arith)

definition default_tests ::
  "(nat \<Rightarrow> nat \<Rightarrow> ('a::len) word Object) \<Rightarrow> fault + 'a word Object list list" where
  "default_tests uninit = gen_tests 4 8 (word_of_nat (numObjects div 2)) uninit 0 []"

section \<open>Reading lines and cells\<close>

text \<open>
  A stream (\<^verbatim>\<open>std::ifstream\<close>, \<^verbatim>\<open>std::stringstream\<close>) is modelled by the characters
  still to be read. \<^verbatim>\<open>std::getline(stream, str, delim)\<close> fails when nothing is left;
  otherwise it yields the characters before the first delimiter and consumes that
  delimiter too. So a text that ends with the delimiter has no empty last piece, and a
  text without any delimiter is one piece.
\<close>

definition getline :: "char \<Rightarrow> string \<Rightarrow> (string \<times> string) option" where
  "getline delim s =
     (if s = [] then None
      else Some (takeWhile (\<lambda>c. c \<noteq> delim) s, drop 1 (dropWhile (\<lambda>c. c \<noteq> delim) s)))"

abbreviation newline :: char where
  "newline \<equiv> CHR 0x0A"

abbreviation comma :: char where
  "comma \<equiv> CHR '',''"

subsection \<open>The library function \<^verbatim>\<open>std::stoul\<close>\<close>

text \<open>
  \<^verbatim>\<open>std::stoul(value)\<close> is \<^verbatim>\<open>strtoul\<close> in base 10 with the two exceptions of the C++
  standard library: leading white space is skipped, one sign is accepted, then the
  longest run of decimal digits is converted and whatever follows it is ignored.
  No digit at that place throws \<^verbatim>\<open>std::invalid_argument\<close>; a value above
  \<^verbatim>\<open>ULONG_MAX\<close> throws \<^verbatim>\<open>std::out_of_range\<close>; after a minus sign the value is negated
  as an \<^verbatim>\<open>unsigned long\<close>. \<^verbatim>\<open>unsigned long\<close> has 64 bits (LP64).
\<close>

datatype stoul_exception = invalid_argument | out_of_range

definition isspace :: "char \<Rightarrow> bool" where
  "isspace c = (c = CHR '' '' \<or> c = CHR 0x09 \<or> c = CHR 0x0A \<or> c = CHR 0x0B
                 \<or> c = CHR 0x0C \<or> c = CHR 0x0D)"

definition isdigit :: "char \<Rightarrow> bool" where
  "isdigit c = (48 \<le> (of_char c :: nat) \<and> (of_char c :: nat) \<le> 57)"

definition digits_value :: "string \<Rightarrow> nat" where
  "digits_value ds = foldl (\<lambda>acc c. 10 * acc + ((of_char c :: nat) - 48)) 0 ds"

definition ULONG_MAX :: nat where
  "ULONG_MAX = 2 ^ 64 - 1"

definition skip_sign :: "string \<Rightarrow> string" where
  "skip_sign s = (case s of c # r \<Rightarrow> if c = CHR ''-'' \<or> c = CHR ''+'' then r else s | [] \<Rightarrow> s)"

definition leading_digits :: "string \<Rightarrow> string" where
  "leading_digits str = takeWhile isdigit (skip_sign (dropWhile isspace str))"

definition negative :: "string \<Rightarrow> bool" where
  "negative str = (case dropWhile isspace str of c # r \<Rightarrow> c = CHR ''-'' | [] \<Rightarrow> False)"

definition stoul :: "string \<Rightarrow> stoul_exception + 64 word" where
  "stoul str =
     (if leading_digits str = [] then Inl invalid_argument
      else if ULONG_MAX < digits_value (leading_digits str) then Inl out_of_range
      else Inr (if negative str then - word_of_nat (digits_value (leading_digits str))
                else word_of_nat (digits_value (leading_digits str))))"

section \<open>Loading test files (main.cpp, lines 85 to 149)\<close>

text \<open>
  The header loop (lines 109 to 115). \<^verbatim>\<open>label.find(p) == 0\<close> holds exactly when \<open>p\<close>
  is a prefix of the label. The index sets are \<^verbatim>\<open>std::unordered_set<std::size_t>\<close>.
\<close>

lemma getline_shorter:
  assumes "getline d s = Some (piece, rest)"
  shows "length rest < length s"
proof -
  from assms have ne: "s \<noteq> []" and rest: "rest = drop 1 (dropWhile (\<lambda>c. c \<noteq> d) s)"
    by (auto simp: getline_def split: if_splits)
  have "length (dropWhile (\<lambda>c. c \<noteq> d) s) \<le> length s"
    by (rule length_dropWhile_le)
  with ne rest show ?thesis
    by (cases s) auto
qed

function parse_header ::
  "string \<Rightarrow> nat \<Rightarrow> nat set \<times> nat set \<Rightarrow> nat set \<times> nat set" where
  "parse_header headerBuffer i (readIndices, writeIndices) =
     (case getline comma headerBuffer of
        None \<Rightarrow> (readIndices, writeIndices)
      | Some (label, rest) \<Rightarrow>
          parse_header rest (i + 1)
            (if prefix ''Read object'' label then (insert i readIndices, writeIndices)
             else if prefix ''Written object'' label
               then (readIndices, insert i writeIndices)
             else (readIndices, writeIndices)))"
  by pat_completeness auto
termination
  by (relation "measure (\<lambda>(headerBuffer, i, sets). length headerBuffer)")
     (auto dest: getline_shorter)

text \<open>
  The loop over the values of one content line (lines 125 to 145). The loop condition
  is \<^verbatim>\<open>i < numObjects && std::getline(lineBuffer, value, ',')\<close>, so the store to
  \<^verbatim>\<open>objs[i]\<close> is always inside the array. The two \<^verbatim>\<open>return\<close> statements leave
  \<^verbatim>\<open>main\<close> with the exit code, here the \<open>Inl\<close> result. The assignment
  \<^verbatim>\<open>address = std::stoul(value)\<close> converts from \<^verbatim>\<open>unsigned long\<close> to \<^verbatim>\<open>ObjectAddress\<close>.
\<close>

function parse_cells ::
  "nat set \<Rightarrow> nat set \<Rightarrow> string \<Rightarrow> nat \<Rightarrow> ('a::len) word Object list
     \<Rightarrow> int + 'a word Object list" where
  "parse_cells readIndices writeIndices lineBuffer i objs =
     (if i < numObjects then
        (case getline comma lineBuffer of
           None \<Rightarrow> Inr objs
         | Some (val, rest) \<Rightarrow>
             if length val \<noteq> 0 \<and> (i \<in> readIndices \<or> i \<in> writeIndices) then
               (case stoul val of
                  Inl invalid_argument \<Rightarrow> Inl 3
                | Inl out_of_range \<Rightarrow> Inl 4
                | Inr address \<Rightarrow>
                    parse_cells readIndices writeIndices rest (i + 1)
                      (objs[i := \<lparr>valid = True, write_flag = (i \<in> writeIndices),
                                  object = ucast address\<rparr>]))
             else parse_cells readIndices writeIndices rest (i + 1) objs)
      else Inr objs)"
  by pat_completeness auto
termination
  by (relation "measure (\<lambda>(readIndices, writeIndices, lineBuffer, i, objs). numObjects - i)")
     auto

text \<open>The loop over the content lines (lines 119 to 147).\<close>

function parse_lines ::
  "nat set \<Rightarrow> nat set \<Rightarrow> (nat \<Rightarrow> nat \<Rightarrow> ('a::len) word Object) \<Rightarrow> string
     \<Rightarrow> 'a word Object list list \<Rightarrow> int + 'a word Object list list" where
  "parse_lines readIndices writeIndices uninit source tests =
     (case getline newline source of
        None \<Rightarrow> Inr tests
      | Some (line, rest) \<Rightarrow>
          (case parse_cells readIndices writeIndices line 0
                  (fresh_objs uninit (length tests)) of
             Inl code \<Rightarrow> Inl code
           | Inr objs \<Rightarrow>
               parse_lines readIndices writeIndices uninit rest (tests @ [objs])))"
  by pat_completeness auto
termination
  by (relation "measure (\<lambda>(readIndices, writeIndices, uninit, source, tests). length source)")
     (auto dest: getline_shorter)

text \<open>
  One input file (lines 86 to 148). The file system is a map from paths to file
  contents; a path outside its domain cannot be opened.
\<close>

definition load_file ::
  "(string \<rightharpoonup> string) \<Rightarrow> (nat \<Rightarrow> nat \<Rightarrow> ('a::len) word Object) \<Rightarrow> string
     \<Rightarrow> 'a word Object list list \<Rightarrow> int + 'a word Object list list" where
  "load_file fs uninit path tests =
     (case fs path of
        None \<Rightarrow> Inl 1
      | Some source \<Rightarrow>
          (case getline newline source of
             None \<Rightarrow> Inl 2
           | Some (header, rest) \<Rightarrow>
               (case parse_header header 0 ({}, {}) of
                  (readIndices, writeIndices) \<Rightarrow>
                    parse_lines readIndices writeIndices uninit rest tests)))"

text \<open>The loop over \<^verbatim>\<open>argv[1]\<close> to \<^verbatim>\<open>argv[argc - 1]\<close> (line 85).\<close>

fun load_files ::
  "(string \<rightharpoonup> string) \<Rightarrow> (nat \<Rightarrow> nat \<Rightarrow> ('a::len) word Object) \<Rightarrow> string list
     \<Rightarrow> 'a word Object list list \<Rightarrow> int + 'a word Object list list" where
  "load_files fs uninit [] tests = Inr tests"
| "load_files fs uninit (path # paths) tests =
     (case load_file fs uninit path tests of
        Inl code \<Rightarrow> Inl code
      | Inr tests' \<Rightarrow> load_files fs uninit paths tests')"

section \<open>Running the tests (main.cpp, lines 152 to 162)\<close>

text \<open>
  A call \<^verbatim>\<open>fpga->enqueueTransaction(i, objs[0], .., objs[15])\<close> is recorded as the pair
  of the counter \<open>i\<close> (a \<^verbatim>\<open>std::size_t\<close>, below \<^verbatim>\<open>tests.size()\<close>) and the sixteen objects.
\<close>

function run_tests ::
  "'o list list \<Rightarrow> nat \<Rightarrow> (nat \<times> 'o list) list \<Rightarrow> (nat \<times> 'o list) list" where
  "run_tests tests i calls =
     (if i < length tests then
        run_tests tests (i + 1) (calls @ [(i, map (\<lambda>k. (tests ! i) ! k) [0..<numObjects])])
      else calls)"
  by pat_completeness auto
termination
  by (relation "measure (\<lambda>(tests, i, calls). length tests - i)") auto

text \<open>
  \<^verbatim>\<open>main\<close> as a whole. Its arguments are the file system, the content of the
  uninitialised arrays and \<^verbatim>\<open>argv[1..]\<close>; \<^verbatim>\<open>argc <= 1\<close> means that this list is empty.
  The result is how the process ends together with the calls made to the scheduler:
  \<open>Exited code\<close> for a \<^verbatim>\<open>return code\<close>, \<open>Waiting\<close> when the final \<^verbatim>\<open>while (true)\<close>
  loop is reached (it never ends), \<open>Undefined\<close> after a store past the end of an array.
  The set-up of the two interfaces and the console output are not modelled.
\<close>

datatype status = Exited int | Waiting | Undefined fault

definition main ::
  "(string \<rightharpoonup> string) \<Rightarrow> (nat \<Rightarrow> nat \<Rightarrow> ('a::len) word Object) \<Rightarrow> string list
     \<Rightarrow> status \<times> (nat \<times> 'a word Object list) list" where
  "main fs uninit args =
     (if args = [] then
        (case default_tests uninit of
           Inl f \<Rightarrow> (Undefined f, [])
         | Inr tests \<Rightarrow> (Waiting, run_tests tests 0 []))
      else
        (case load_files fs uninit args [] of
           Inl code \<Rightarrow> (Exited code, [])
         | Inr tests \<Rightarrow> (Waiting, run_tests tests 0 [])))"

section \<open>Auxiliary notions for the statements\<close>

text \<open>
  \<open>synth_slot objSetSize i k\<close> is the object that the loop body of lines 66 to 80 stores
  in slot \<open>k\<close> of transaction \<open>i\<close>: the first compound literal for an even \<open>k = 2 * j\<close>,
  the second for an odd \<open>k = 2 * j + 1\<close>. The lemmas about \<open>fill_objs\<close> and
  \<open>gen_tests\<close> are stated in terms of it.
\<close>

definition synth_slot :: "32 word \<Rightarrow> 32 word \<Rightarrow> nat \<Rightarrow> ('a::len) word Object" where
  "synth_slot objSetSize i k =
     (if even k
      then \<lparr>valid = True, write_flag = False,
            object = ucast (objSetSize * i * 2 + word_of_nat (k div 2) * 2)\<rparr>
      else \<lparr>valid = True, write_flag = True,
            object = ucast (write_target objSetSize i (word_of_nat (k div 2)))\<rparr>)"

text \<open>
  \<open>pieces delim s\<close> lists what successive calls of \<open>getline delim\<close> yield on \<open>s\<close>:
  the content lines of a file for \<open>newline\<close>, the cells of a line or the labels of a
  header for \<open>comma\<close>.
\<close>

function pieces :: "char \<Rightarrow> string \<Rightarrow> string list" where
  "pieces delim s =
     (case getline delim s of
        None \<Rightarrow> []
      | Some (piece, rest) \<Rightarrow> piece # pieces delim rest)"
  by pat_completeness auto
termination
  by (relation "measure (\<lambda>(delim, s). length s)") (auto dest: getline_shorter)

text \<open>
  A column is a read column when its header label begins with \<^verbatim>\<open>Read object\<close> and a
  write column when it begins with \<^verbatim>\<open>Written object\<close>; \<open>parse_header_columns\<close> below
  shows that these are the two index sets the header loop computes.
\<close>

definition read_column :: "string \<Rightarrow> nat \<Rightarrow> bool" where
  "read_column header k \<longleftrightarrow>
     k < length (pieces comma header) \<and> prefix ''Read object'' (pieces comma header ! k)"

definition write_column :: "string \<Rightarrow> nat \<Rightarrow> bool" where
  "write_column header k \<longleftrightarrow>
     k < length (pieces comma header) \<and> prefix ''Written object'' (pieces comma header ! k)"

text \<open>
  The cells of a line; \<open>populated header line k\<close> says that the loop over the cells of
  \<open>line\<close> stores to slot \<open>k\<close>: the line has a cell \<open>k\<close> among its first sixteen, the cell
  is not empty and column \<open>k\<close> is a read or a write column of the header.
  \<open>first_refused header content m k e\<close> says that cell \<open>k\<close> of content line \<open>m\<close> is the
  first such cell, in reading order, on which \<^verbatim>\<open>std::stoul\<close> throws, and that it throws \<open>e\<close>.
\<close>

abbreviation cells :: "string \<Rightarrow> string list" where
  "cells line \<equiv> pieces comma line"

definition populated :: "string \<Rightarrow> string \<Rightarrow> nat \<Rightarrow> bool" where
  "populated header line k \<longleftrightarrow>
     k < numObjects \<and> k < length (cells line) \<and> cells line ! k \<noteq> [] \<and>
     (read_column header k \<or> write_column header k)"


text \<open>
  Example inputs for the instances of the theorems: uninitialised arrays that hold
  invalid zero objects, and a file system with the one file \<^verbatim>\<open>t.csv\<close>, which has a read
  column, a write column, a third column that is neither, and two content lines.
\<close>

definition zeroed :: "nat \<Rightarrow> nat \<Rightarrow> 32 word Object" where
  "zeroed n k = \<lparr>valid = False, write_flag = False, object = 0\<rparr>"

definition example_header :: string where
  "example_header = ''Read object 1,Written object 1,Note''"

definition example_content :: string where
  "example_content = ''3,4,x'' @ [newline] @ ''5,,y'' @ [newline]"

definition example_fs :: "string \<rightharpoonup> string" where
  "example_fs = [''t.csv'' \<mapsto> example_header @ [newline] @ example_content]"


text \<open>
  A valid unsigned integer in base 10, as the file format has it: one decimal digit or
  more and nothing else. The file \<^verbatim>\<open>c.csv\<close> has a cell that is none.
\<close>

definition is_unsigned_integer :: "string \<Rightarrow> bool" where
  "is_unsigned_integer s \<longleftrightarrow> s \<noteq> [] \<and> list_all isdigit s"

definition trailing_fs :: "string \<rightharpoonup> string" where
  "trailing_fs = [''c.csv'' \<mapsto> ''Read object 1'' @ [newline] @ ''12abc'' @ [newline]]"

text \<open>
  Uninitialised arrays as a compiler that gives every pass of a loop the same stack
  slots leaves them: \<open>leftover n0\<close> has array \<open>n0\<close> declared over a valid read of object
  5 in slot 0, which an earlier pass stored there, and invalid zero objects elsewhere.
  The files: \<^verbatim>\<open>s.csv\<close> has an empty cell in a read column on its second line,
  \<^verbatim>\<open>d.csv\<close> has one on its first line, and the header of \<^verbatim>\<open>n.csv\<close> has no read or write
  column.
\<close>

definition leftover :: "nat \<Rightarrow> nat \<Rightarrow> nat \<Rightarrow> 32 word Object" where
  "leftover n0 n k =
     (if n = n0 \<and> k = 0 then \<lparr>valid = True, write_flag = False, object = 5\<rparr>
      else \<lparr>valid = False, write_flag = False, object = 0\<rparr>)"

definition stale_fs :: "string \<rightharpoonup> string" where
  "stale_fs =
     [''s.csv'' \<mapsto> ''Read object 1,Written object 1'' @ [newline] @ ''5,6'' @ [newline]
                       @ '',7'' @ [newline],
      ''d.csv'' \<mapsto> ''Read object 1,Read object 2'' @ [newline] @ '',6'' @ [newline]
                       @ ''5,7'' @ [newline],
      ''n.csv'' \<mapsto> ''Note'' @ [newline] @ ''1'' @ [newline]]"

text \<open>
  The memory behind the arrays when \<^verbatim>\<open>t.csv\<close> is loaded and every pass of the loop over
  the lines has the same stack slots: \<open>carried\<close> has array 1, that of the second line,
  declared over what the first line \<^verbatim>\<open>3,4,x\<close> stored, a valid read of object 3 in slot 0
  and a valid write of object 4 in slot 1, and invalid zero objects elsewhere.
\<close>

definition carried :: "nat \<Rightarrow> nat \<Rightarrow> 32 word Object" where
  "carried n k =
     (if n = 1 \<and> k = 0 then \<lparr>valid = True, write_flag = False, object = 3\<rparr>
      else if n = 1 \<and> k = 1 then \<lparr>valid = True, write_flag = True, object = 4\<rparr>
      else \<lparr>valid = False, write_flag = False, object = 0\<rparr>)"


text \<open>
  The loops are unfolded one step at a time in the proofs, never by the simplifier.
\<close>

declare fill_objs.simps [simp del] gen_tests.simps [simp del] parse_header.simps [simp del]
  parse_cells.simps [simp del] parse_lines.simps [simp del] run_tests.simps [simp del]
  pieces.simps [simp del]

section \<open>The default tests: what the two loops store\<close>

lemma unat_small:
  fixes j s :: "32 word"
  assumes "j < s" "s \<le> 8"
  shows "unat (2 * j) = 2 * unat j" and "unat (2 * j + 1) = 2 * unat j + 1"
    and "unat (j + 1) = unat j + 1" and "unat j < 8"
proof -
  from assms have lt: "unat j < unat s" and le: "unat s \<le> 8"
    by (simp_all add: word_less_nat_alt word_le_nat_alt)
  then show j8: "unat j < 8" by simp
  then show m: "unat (2 * j) = 2 * unat j"
    by (simp add: unat_word_ariths)
  from j8 m show "unat (2 * j + 1) = 2 * unat j + 1"
    by (simp add: unat_word_ariths)
  from j8 show "unat (j + 1) = unat j + 1"
    by (simp add: unat_word_ariths)
qed

lemma fill_objs_slots:
  fixes objs :: "('a::len) word Object list"
  assumes "objSetSize \<le> 8" and "length objs = numObjects" and "j \<le> objSetSize"
  shows "\<exists>objs'. fill_objs objSetSize i j objs = Inr objs' \<and> length objs' = numObjects \<and>
           (\<forall>k<numObjects. objs' ! k =
              (if 2 * unat j \<le> k \<and> k < 2 * unat objSetSize then synth_slot objSetSize i k
               else objs ! k))"
  using assms(2,3)
proof (induction "unat objSetSize - unat j" arbitrary: j objs)
  case 0
  then have "\<not> j < objSetSize" and "unat j = unat objSetSize"
    by (simp_all add: word_less_nat_alt word_le_nat_alt)
  then show ?case using 0 by (subst fill_objs.simps) auto
next
  case (Suc n)
  then have lt: "j < objSetSize" by (simp add: word_less_nat_alt)
  note u = unat_small [OF lt assms(1)]
  let ?r = "\<lparr>valid = True, write_flag = False,
             object = (ucast (objSetSize * i * 2 + j * 2) :: 'a word)\<rparr>"
  let ?w = "\<lparr>valid = True, write_flag = True,
             object = (ucast (write_target objSetSize i j) :: 'a word)\<rparr>"
  let ?objs2 = "objs[2 * unat j := ?r, 2 * unat j + 1 := ?w]"
  have len: "length objs = 16" using Suc.prems by (simp add: numObjects_def)
  have step: "fill_objs objSetSize i j objs = fill_objs objSetSize i (j + 1) ?objs2"
    using lt u len by (subst fill_objs.simps) (simp add: store_def)
  have "n = unat objSetSize - unat (j + 1)" using Suc.hyps(2) u by simp
  moreover have "length ?objs2 = numObjects" using Suc.prems by simp
  moreover have "j + 1 \<le> objSetSize" using lt u by (simp add: word_le_nat_alt word_less_nat_alt)
  ultimately obtain objs' where
    res: "fill_objs objSetSize i (j + 1) ?objs2 = Inr objs'" and
    len': "length objs' = numObjects" and
    slots: "\<forall>k<numObjects. objs' ! k =
              (if 2 * unat (j + 1) \<le> k \<and> k < 2 * unat objSetSize then synth_slot objSetSize i k
               else ?objs2 ! k)"
    using Suc.hyps(1) [of "j + 1" ?objs2] by blast
  have "objs' ! k =
              (if 2 * unat j \<le> k \<and> k < 2 * unat objSetSize then synth_slot objSetSize i k
               else objs ! k)" if k: "k < numObjects" for k
  proof -
    have js: "unat j < unat objSetSize" using lt by (simp add: word_less_nat_alt)
    from slots k have sk: "objs' ! k =
              (if 2 * unat (j + 1) \<le> k \<and> k < 2 * unat objSetSize then synth_slot objSetSize i k
               else ?objs2 ! k)" by blast
    consider "k = 2 * unat j" | "k = 2 * unat j + 1" | "k < 2 * unat j" | "2 * unat j + 2 \<le> k"
      by linarith
    then show ?thesis
    proof cases
      case 1
      then show ?thesis using sk k u js len by (simp add: synth_slot_def)
    next
      case 2
      then show ?thesis using sk k u js len by (simp add: synth_slot_def)
    next
      case 3
      then show ?thesis using sk k u js len by simp
    next
      case 4
      then show ?thesis using sk k u js len by simp
    qed
  qed
  with step res len' show ?case by simp
qed

lemma length_fresh_objs: "length (fresh_objs uninit n) = numObjects"
  by (simp add: fresh_objs_def)

lemma nth_fresh_objs: "k < numObjects \<Longrightarrow> fresh_objs uninit n ! k = uninit n k"
  by (simp add: fresh_objs_def)

lemma fill_objs_fresh:
  fixes uninit :: "nat \<Rightarrow> nat \<Rightarrow> ('a::len) word Object"
  assumes "objSetSize \<le> 8"
  shows "\<exists>objs. fill_objs objSetSize i 0 (fresh_objs uninit n) = Inr objs \<and>
           length objs = numObjects \<and>
           (\<forall>k<numObjects. objs ! k =
              (if k < 2 * unat objSetSize then synth_slot objSetSize i k else uninit n k))"
proof -
  have "(0::32 word) \<le> objSetSize" by simp
  from fill_objs_slots [of objSetSize "fresh_objs uninit n" 0 i, OF assms length_fresh_objs this]
  obtain objs where
    r: "fill_objs objSetSize i 0 (fresh_objs uninit n) = Inr objs" and
    l: "length objs = numObjects" and
    s: "\<forall>k<numObjects. objs ! k =
              (if 2 * unat (0::32 word) \<le> k \<and> k < 2 * unat objSetSize then synth_slot objSetSize i k
               else fresh_objs uninit n ! k)"
    by blast
  from s have "\<forall>k<numObjects. objs ! k =
              (if k < 2 * unat objSetSize then synth_slot objSetSize i k else uninit n k)"
    by (simp add: nth_fresh_objs)
  with r l show ?thesis by blast
qed

lemma gen_tests_steps:
  fixes uninit :: "nat \<Rightarrow> nat \<Rightarrow> ('a::len) word Object"
  assumes "objSetSize \<le> 8" and "i \<le> numTests * maxScheduledObjects"
  shows "\<exists>ts. gen_tests numTests maxScheduledObjects objSetSize uninit i tests = Inr (tests @ ts) \<and>
           length ts = unat (numTests * maxScheduledObjects) - unat i \<and>
           (\<forall>d<length ts. fill_objs objSetSize (i + word_of_nat d) 0
                             (fresh_objs uninit (length tests + d)) = Inr (ts ! d))"
  using assms(2)
proof (induction "unat (numTests * maxScheduledObjects) - unat i" arbitrary: i tests)
  case 0
  then have "\<not> i < numTests * maxScheduledObjects"
    by (simp add: word_less_nat_alt word_le_nat_alt)
  then show ?case using 0 by (subst gen_tests.simps) simp
next
  case (Suc n)
  let ?N = "numTests * maxScheduledObjects"
  from Suc have lt: "i < ?N" by (simp add: word_less_nat_alt)
  then have ui: "unat (i + 1) = unat i + 1" by unat_arith
  obtain objs where
    fill: "fill_objs objSetSize i 0 (fresh_objs uninit (length tests)) = Inr objs"
    using fill_objs_fresh [OF assms(1), of i uninit "length tests"] by blast
  have step: "gen_tests numTests maxScheduledObjects objSetSize uninit i tests =
              gen_tests numTests maxScheduledObjects objSetSize uninit (i + 1) (tests @ [objs])"
    using lt fill by (subst gen_tests.simps) simp
  have "n = unat ?N - unat (i + 1)" using Suc.hyps(2) ui by simp
  moreover have "i + 1 \<le> ?N" using lt ui by (simp add: word_le_nat_alt word_less_nat_alt)
  ultimately obtain ts where
    res: "gen_tests numTests maxScheduledObjects objSetSize uninit (i + 1) (tests @ [objs])
            = Inr ((tests @ [objs]) @ ts)" and
    len: "length ts = unat ?N - unat (i + 1)" and
    each: "\<forall>d<length ts. fill_objs objSetSize (i + 1 + word_of_nat d) 0
              (fresh_objs uninit (length (tests @ [objs]) + d)) = Inr (ts ! d)"
    using Suc.hyps(1) [of "i + 1" "tests @ [objs]"] by blast
  have "fill_objs objSetSize (i + word_of_nat d) 0 (fresh_objs uninit (length tests + d))
          = Inr ((objs # ts) ! d)" if "d < length (objs # ts)" for d
  proof (cases d)
    case 0
    then show ?thesis using fill by simp
  next
    case (Suc d')
    then have "d' < length ts" using that by simp
    with each have "fill_objs objSetSize (i + 1 + word_of_nat d') 0
              (fresh_objs uninit (length (tests @ [objs]) + d')) = Inr (ts ! d')" by blast
    then show ?thesis using Suc by (simp add: add.assoc)
  qed
  moreover have "length (objs # ts) = unat ?N - unat i" using len ui lt Suc.hyps(2) by simp
  ultimately show ?case using step res by (intro exI [of _ "objs # ts"]) simp
qed

lemma gen_tests_result:
  fixes uninit :: "nat \<Rightarrow> nat \<Rightarrow> ('a::len) word Object"
  assumes "objSetSize \<le> 8"
  shows "\<exists>tests. gen_tests numTests maxScheduledObjects objSetSize uninit 0 [] = Inr tests \<and>
           length tests = unat (numTests * maxScheduledObjects) \<and>
           (\<forall>i<length tests. length (tests ! i) = numObjects \<and>
              (\<forall>k<numObjects. tests ! i ! k =
                 (if k < 2 * unat objSetSize then synth_slot objSetSize (word_of_nat i) k
                  else uninit i k)))"
proof -
  have "(0::32 word) \<le> numTests * maxScheduledObjects" by simp
  from gen_tests_steps [OF assms this, of uninit "[]"]
  obtain ts where
    res: "gen_tests numTests maxScheduledObjects objSetSize uninit 0 [] = Inr ([] @ ts)" and
    len: "length ts = unat (numTests * maxScheduledObjects) - unat (0 :: 32 word)" and
    each: "\<forall>d<length ts. fill_objs objSetSize (0 + word_of_nat d) 0
              (fresh_objs uninit (length ([] :: 'a word Object list list) + d)) = Inr (ts ! d)"
    by blast
  have "length (ts ! i) = numObjects \<and>
              (\<forall>k<numObjects. ts ! i ! k =
                 (if k < 2 * unat objSetSize then synth_slot objSetSize (word_of_nat i) k
                  else uninit i k))" if "i < length ts" for i
  proof -
    from each that have f: "fill_objs objSetSize (word_of_nat i) 0 (fresh_objs uninit i) = Inr (ts ! i)"
      by simp
    from fill_objs_fresh [OF assms, of "word_of_nat i" uninit i] f
    show ?thesis by simp
  qed
  with res len show ?thesis by simp
qed


lemma unat_mult_small:
  fixes a b :: "32 word"
  shows "unat a * unat b < 2 ^ 32 \<Longrightarrow> unat (a * b) = unat a * unat b"
  using unat_mult_lem [of a b] by simp

lemma unat_add_small:
  fixes a b :: "32 word"
  shows "unat a + unat b < 2 ^ 32 \<Longrightarrow> unat (a + b) = unat a + unat b"
  using unat_add_lem [of a b] by simp

lemma unat_ucast_small:
  fixes w :: "32 word"
  shows "unat w < 2 ^ LENGTH('a::len) \<Longrightarrow> unat (ucast w :: 'a word) = unat w"
  by (simp add: unsigned_ucast_eq take_bit_nat_eq_self)

lemma unat_addr:
  fixes s I J c :: "32 word"
  assumes "unat s * unat I * 2 + unat J * 2 + unat c < 2 ^ 32"
  shows "unat (s * I * 2 + J * 2 + c) = unat s * unat I * 2 + unat J * 2 + unat c"
proof -
  have "unat s * unat I < 2 ^ 32" using assms by linarith
  then have 1: "unat (s * I) = unat s * unat I"
    by (rule unat_mult_small)
  have "unat s * unat I * 2 < 2 ^ 32" using assms by linarith
  then have "unat (s * I) * unat (2 :: 32 word) < 2 ^ 32" by (simp only: 1 unat_numeral) simp
  then have "unat (s * I * 2) = unat (s * I) * unat (2 :: 32 word)"
    by (rule unat_mult_small)
  then have 2: "unat (s * I * 2) = unat s * unat I * 2"
    by (simp only: 1) simp
  have "unat J * 2 < (2::nat) ^ 32" using assms by linarith
  then have "unat J * unat (2 :: 32 word) < 2 ^ 32" by simp
  then have "unat (J * 2) = unat J * unat (2 :: 32 word)"
    by (rule unat_mult_small)
  then have 3: "unat (J * 2) = unat J * 2"
    by simp
  have "unat (s * I * 2) + unat (J * 2) < 2 ^ 32" unfolding 2 3 using assms by linarith
  then have "unat (s * I * 2 + J * 2) = unat (s * I * 2) + unat (J * 2)"
    by (rule unat_add_small)
  then have 4: "unat (s * I * 2 + J * 2) = unat s * unat I * 2 + unat J * 2"
    by (simp only: 2 3)
  have "unat (s * I * 2 + J * 2) + unat c < 2 ^ 32" unfolding 4 using assms by linarith
  then have "unat (s * I * 2 + J * 2 + c) = unat (s * I * 2 + J * 2) + unat c"
    by (rule unat_add_small)
  then show ?thesis
    by (simp only: 4)
qed

lemma unat_write_target:
  fixes s I J :: "32 word"
  assumes "unat s * unat I * 2 + unat J * 2 + 1 < 2 ^ 32"
  shows "unat (write_target s I J) =
     (if unat I mod 4 = 0 then unat s * unat I * 2 + unat J * 2 + 1
      else if unat I mod 4 = 1 then unat s * (unat I - 1) * 2 + unat J * 2 + 1
      else if unat I mod 4 = 2 then unat s * (unat I mod 2) * 2 + unat J * 2 + 1
      else unat s * 2 + unat J * 2 + 1)"
proof -
  have m4: "I mod 4 = c \<longleftrightarrow> unat I mod 4 = unat c" for c :: "32 word"
    by (simp add: word_unat_eq_iff unat_mod)
  have m2: "unat (I mod 2) = unat I mod 2"
    by (simp add: unat_mod)
  have sub: "unat (I - I mod 2) = unat I - unat I mod 2"
    by (subst unat_sub) (simp_all add: word_le_nat_alt m2)
  have le1: "unat s * (unat I - unat I mod 2) \<le> unat s * unat I"
    by (rule mult_le_mono2) simp
  have le2: "unat s * (unat I mod 2) \<le> unat s * unat I"
    by (rule mult_le_mono2) simp
  have c0: "unat (s * I * 2 + J * 2 + 1) = unat s * unat I * 2 + unat J * 2 + 1"
    using unat_addr [of s I J 1] assms by simp
  have "unat s * (unat I - unat I mod 2) * 2 + unat J * 2 + 1 < 2 ^ 32"
    using assms le1 by linarith
  then have "unat s * unat (I - I mod 2) * 2 + unat J * 2 + unat (1 :: 32 word) < 2 ^ 32"
    by (simp only: sub unat_1)
  from unat_addr [OF this]
  have c1: "unat (s * (I - I mod 2) * 2 + J * 2 + 1) =
            unat s * (unat I - unat I mod 2) * 2 + unat J * 2 + 1"
    by (simp only: sub unat_1)
  have "unat s * (unat I mod 2) * 2 + unat J * 2 + 1 < 2 ^ 32"
    using assms le2 by linarith
  then have "unat s * unat (I mod 2) * 2 + unat J * 2 + unat (1 :: 32 word) < 2 ^ 32"
    by (simp only: m2 unat_1)
  from unat_addr [OF this]
  have c2: "unat (s * (I mod 2) * 2 + J * 2 + 1) = unat s * (unat I mod 2) * 2 + unat J * 2 + 1"
    by (simp only: m2 unat_1)
  have c3: "unat (s * 2 + J * 2 + 1) = unat s * 2 + unat J * 2 + 1" if "unat I mod 4 = 3"
  proof -
    from that have "1 \<le> unat I" by presburger
    then have "unat s * 1 \<le> unat s * unat I" by (rule mult_le_mono2)
    then have "unat s * 1 * 2 + unat J * 2 + 1 < 2 ^ 32"
      using assms by linarith
    then have "unat s * unat (1 :: 32 word) * 2 + unat J * 2 + unat (1 :: 32 word) < 2 ^ 32"
      by (simp only: unat_1)
    from unat_addr [OF this] show ?thesis by simp
  qed
  have r: "unat I mod 4 = 1 \<Longrightarrow> unat I mod 2 = 1" by presburger
  have "unat I mod 4 = 0 \<or> unat I mod 4 = 1 \<or> unat I mod 4 = 2 \<or> unat I mod 4 = 3"
    by presburger
  then consider "unat I mod 4 = 0" | "unat I mod 4 = 1" | "unat I mod 4 = 2" | "unat I mod 4 = 3"
    by auto
  then show ?thesis
  proof cases
    case 1
    then show ?thesis using c0 by (simp add: write_target_def m4)
  next
    case 2
    then show ?thesis using c1 r by (simp add: write_target_def m4)
  next
    case 3
    then show ?thesis using c2 by (simp add: write_target_def m4)
  next
    case 4
    then show ?thesis using c3 by (simp add: write_target_def m4)
  qed
qed


lemma count_valid_prefix:
  assumes "n \<le> length t" and "\<forall>k<length t. valid (t ! k) \<longleftrightarrow> k < n"
  shows "length (filter valid t) = n"
proof -
  have "\<forall>x\<in>set (take n t). valid x"
    using assms by (auto simp: in_set_conv_nth)
  then have a: "filter valid (take n t) = take n t" by (simp add: filter_id_conv)
  have "\<forall>x\<in>set (drop n t). \<not> valid x"
    using assms by (auto simp: in_set_conv_nth)
  then have b: "filter valid (drop n t) = []" by (simp add: filter_empty_conv)
  have "filter valid t = filter valid (take n t @ drop n t)" by simp
  also have "\<dots> = take n t" unfolding filter_append a b by simp
  finally show ?thesis using assms(1) by simp
qed

section \<open>Loading: what the loops over lines and cells return\<close>

lemma pieces_None: "getline d s = None \<Longrightarrow> pieces d s = []"
  by (subst pieces.simps) simp

lemma pieces_Some: "getline d s = Some (p, r) \<Longrightarrow> pieces d s = p # pieces d r"
  by (subst pieces.simps) simp

lemma pieces_Nil_iff: "pieces d s = [] \<longleftrightarrow> getline d s = None"
  by (subst pieces.simps) (auto split: option.splits)

lemma pieces_Cons_iff:
  "pieces d s = p # ps \<longleftrightarrow> (\<exists>r. getline d s = Some (p, r) \<and> pieces d r = ps)"
  by (subst pieces.simps) (auto split: option.splits)

lemma not_both_prefixes: "prefix ''Written object'' l \<Longrightarrow> \<not> prefix ''Read object'' l"
  by (auto simp: prefix_def)

lemma parse_header_sets:
  "parse_header buf i (R, W) =
     (R \<union> {i + n |n. n < length (pieces comma buf) \<and> prefix ''Read object'' (pieces comma buf ! n)},
      W \<union> {i + n |n. n < length (pieces comma buf) \<and> prefix ''Written object'' (pieces comma buf ! n)})"
proof (induction "pieces comma buf" arbitrary: buf i R W)
  case Nil
  from Nil [symmetric] have "getline comma buf = None" by (simp add: pieces_Nil_iff)
  then show ?case using Nil [symmetric] by (subst parse_header.simps) simp
next
  case (Cons l ls)
  from Cons.hyps(2) [symmetric] obtain r where
    g: "getline comma buf = Some (l, r)" and r: "ls = pieces comma r"
    by (auto simp: pieces_Cons_iff)
  have p: "pieces comma buf = l # pieces comma r" using g by (rule pieces_Some)
  have shift: "{i + n |n. n < Suc (length ps) \<and> Q ((l # ps) ! n)} =
        (if Q l then {i} else {}) \<union> {Suc i + n |n. n < length ps \<and> Q (ps ! n)}"
    for Q :: "string \<Rightarrow> bool" and ps
  proof -
    have "{i + n |n. n < Suc (length ps) \<and> Q ((l # ps) ! n)} =
          {i + n |n. n = 0 \<and> Q l} \<union> {i + n |n. \<exists>m. n = Suc m \<and> m < length ps \<and> Q (ps ! m)}"
      by (auto simp: less_Suc_eq_0_disj)
    also have "{i + n |n. n = 0 \<and> Q l} = (if Q l then {i} else {})" by auto
    also have "{i + n |n. \<exists>m. n = Suc m \<and> m < length ps \<and> Q (ps ! m)} =
               {Suc i + n |n. n < length ps \<and> Q (ps ! n)}" by auto
    finally show ?thesis .
  qed
  show ?case
    using g not_both_prefixes [of l]
    by (subst parse_header.simps)
       (auto simp: Cons.hyps(1) [OF r] p shift)
qed


lemma parse_cells_ok:
  fixes objs :: "('a::len) word Object list"
  assumes "\<forall>n<length (pieces comma buf). i + n < numObjects \<longrightarrow> pieces comma buf ! n \<noteq> [] \<longrightarrow>
             (i + n \<in> rd \<or> i + n \<in> wr) \<longrightarrow> (\<exists>a. stoul (pieces comma buf ! n) = Inr a)"
  shows "\<exists>objs'. parse_cells rd wr buf i objs = Inr objs' \<and> length objs' = length objs \<and>
           (\<forall>k<length objs. objs' ! k =
              (if i \<le> k \<and> k < numObjects \<and> k - i < length (pieces comma buf) \<and>
                  pieces comma buf ! (k - i) \<noteq> [] \<and> (k \<in> rd \<or> k \<in> wr)
               then \<lparr>valid = True, write_flag = (k \<in> wr),
                     object = ucast (projr (stoul (pieces comma buf ! (k - i))))\<rparr>
               else objs ! k))"
  using assms
proof (induction "pieces comma buf" arbitrary: buf i objs)
  case Nil
  from Nil(1) [symmetric] have "getline comma buf = None" by (simp add: pieces_Nil_iff)
  then show ?case using Nil(1) [symmetric] by (subst parse_cells.simps) simp
next
  case (Cons c cs)
  from Cons.hyps(2) [symmetric] obtain r where
    g: "getline comma buf = Some (c, r)" and r: "cs = pieces comma r"
    by (auto simp: pieces_Cons_iff)
  have p: "pieces comma buf = c # pieces comma r" using g by (rule pieces_Some)
  note ok = Cons.prems [unfolded p]
  have ok': "\<forall>n<length (pieces comma r). Suc i + n < numObjects \<longrightarrow> pieces comma r ! n \<noteq> [] \<longrightarrow>
             (Suc i + n \<in> rd \<or> Suc i + n \<in> wr) \<longrightarrow> (\<exists>a. stoul (pieces comma r ! n) = Inr a)"
  proof (intro allI impI)
    fix n assume "n < length (pieces comma r)" "Suc i + n < numObjects" "pieces comma r ! n \<noteq> []"
      "Suc i + n \<in> rd \<or> Suc i + n \<in> wr"
    with ok [rule_format, of "Suc n"] show "\<exists>a. stoul (pieces comma r ! n) = Inr a" by simp
  qed
  show ?case
  proof (cases "i < numObjects")
    case False
    then show ?thesis by (subst parse_cells.simps) auto
  next
    case True
    show ?thesis
    proof (cases "c \<noteq> [] \<and> (i \<in> rd \<or> i \<in> wr)")
      case False
      from Cons.hyps(1) [OF r ok', of objs] obtain objs' where
        res: "parse_cells rd wr r (Suc i) objs = Inr objs'" and len: "length objs' = length objs" and
        slots: "\<forall>k<length objs. objs' ! k =
              (if Suc i \<le> k \<and> k < numObjects \<and> k - Suc i < length (pieces comma r) \<and>
                  pieces comma r ! (k - Suc i) \<noteq> [] \<and> (k \<in> rd \<or> k \<in> wr)
               then \<lparr>valid = True, write_flag = (k \<in> wr),
                     object = ucast (projr (stoul (pieces comma r ! (k - Suc i))))\<rparr>
               else objs ! k)"
        by blast
      have step: "parse_cells rd wr buf i objs = parse_cells rd wr r (Suc i) objs"
        using True g False by (subst parse_cells.simps) auto
      have "objs' ! k =
              (if i \<le> k \<and> k < numObjects \<and> k - i < length (c # pieces comma r) \<and>
                  (c # pieces comma r) ! (k - i) \<noteq> [] \<and> (k \<in> rd \<or> k \<in> wr)
               then \<lparr>valid = True, write_flag = (k \<in> wr),
                     object = ucast (projr (stoul ((c # pieces comma r) ! (k - i))))\<rparr>
               else objs ! k)" if "k < length objs" for k
      proof (cases "k \<le> i")
        case True
        then show ?thesis using slots [rule_format, OF that] False by auto
      next
        case False
        then obtain d where d: "k - i = Suc d" "k - Suc i = d" by (cases "k - i") auto
        from False have "i \<le> k" "Suc i \<le> k" by simp_all
        then show ?thesis using slots [rule_format, OF that] d by auto
      qed
      then show ?thesis using step res len p by auto
    next
      case marked: True
      with ok [rule_format, of 0] \<open>i < numObjects\<close> obtain a where a: "stoul c = Inr a" by auto
      let ?objs1 = "objs[i := \<lparr>valid = True, write_flag = (i \<in> wr), object = ucast a\<rparr>]"
      from Cons.hyps(1) [OF r ok', of ?objs1] obtain objs' where
        res: "parse_cells rd wr r (Suc i) ?objs1 = Inr objs'" and len: "length objs' = length objs" and
        slots: "\<forall>k<length objs. objs' ! k =
              (if Suc i \<le> k \<and> k < numObjects \<and> k - Suc i < length (pieces comma r) \<and>
                  pieces comma r ! (k - Suc i) \<noteq> [] \<and> (k \<in> rd \<or> k \<in> wr)
               then \<lparr>valid = True, write_flag = (k \<in> wr),
                     object = ucast (projr (stoul (pieces comma r ! (k - Suc i))))\<rparr>
               else ?objs1 ! k)"
        by auto
      have step: "parse_cells rd wr buf i objs = parse_cells rd wr r (Suc i) ?objs1"
        using \<open>i < numObjects\<close> g marked a by (subst parse_cells.simps) auto
      have "objs' ! k =
              (if i \<le> k \<and> k < numObjects \<and> k - i < length (c # pieces comma r) \<and>
                  (c # pieces comma r) ! (k - i) \<noteq> [] \<and> (k \<in> rd \<or> k \<in> wr)
               then \<lparr>valid = True, write_flag = (k \<in> wr),
                     object = ucast (projr (stoul ((c # pieces comma r) ! (k - i))))\<rparr>
               else objs ! k)" if "k < length objs" for k
      proof (cases "k \<le> i")
        case True
        show ?thesis
        proof (cases "k = i")
          case True
          then show ?thesis using slots [rule_format, OF that] that marked a \<open>i < numObjects\<close>
            by auto
        next
          case False
          with \<open>k \<le> i\<close> have "k < i" by simp
          then show ?thesis using slots [rule_format, OF that] that by auto
        qed
      next
        case False
        then obtain d where d: "k - i = Suc d" "k - Suc i = d" by (cases "k - i") auto
        from False have "i \<le> k" "Suc i \<le> k" "i \<noteq> k" by simp_all
        then show ?thesis using slots [rule_format, OF that] d by auto
      qed
      then show ?thesis using step res len p by auto
    qed
  qed
qed



lemma parse_lines_ok:
  fixes uninit :: "nat \<Rightarrow> nat \<Rightarrow> ('a::len) word Object"
  assumes "\<forall>m<length (pieces newline src).
             \<exists>objs. parse_cells rd wr (pieces newline src ! m) 0
                      (fresh_objs uninit (length tests + m)) = Inr objs"
  shows "\<exists>new. parse_lines rd wr uninit src tests = Inr (tests @ new) \<and>
           length new = length (pieces newline src) \<and>
           (\<forall>m<length (pieces newline src).
              parse_cells rd wr (pieces newline src ! m) 0
                (fresh_objs uninit (length tests + m)) = Inr (new ! m))"
  using assms
proof (induction "pieces newline src" arbitrary: src tests)
  case Nil
  from Nil(1) [symmetric] have "getline newline src = None" by (simp add: pieces_Nil_iff)
  then show ?case using Nil(1) [symmetric] by (subst parse_lines.simps) simp
next
  case (Cons l ls)
  from Cons.hyps(2) [symmetric] obtain r where
    g: "getline newline src = Some (l, r)" and r: "ls = pieces newline r"
    by (auto simp: pieces_Cons_iff)
  have p: "pieces newline src = l # pieces newline r" using g by (rule pieces_Some)
  note ok = Cons.prems [unfolded p]
  from ok [rule_format, of 0] obtain objs where
    first: "parse_cells rd wr l 0 (fresh_objs uninit (length tests)) = Inr objs" by auto
  have ok': "\<forall>m<length (pieces newline r).
             \<exists>objs'. parse_cells rd wr (pieces newline r ! m) 0
                      (fresh_objs uninit (length (tests @ [objs]) + m)) = Inr objs'"
  proof (intro allI impI)
    fix m assume "m < length (pieces newline r)"
    with ok [rule_format, of "Suc m"]
    show "\<exists>objs'. parse_cells rd wr (pieces newline r ! m) 0
                      (fresh_objs uninit (length (tests @ [objs]) + m)) = Inr objs'" by simp
  qed
  from Cons.hyps(1) [OF r ok'] obtain new where
    res: "parse_lines rd wr uninit r (tests @ [objs]) = Inr ((tests @ [objs]) @ new)" and
    len: "length new = length (pieces newline r)" and
    each: "\<forall>m<length (pieces newline r).
              parse_cells rd wr (pieces newline r ! m) 0
                (fresh_objs uninit (length (tests @ [objs]) + m)) = Inr (new ! m)"
    by blast
  have step: "parse_lines rd wr uninit src tests = parse_lines rd wr uninit r (tests @ [objs])"
    using g first by (subst parse_lines.simps) simp
  have "parse_cells rd wr ((l # pieces newline r) ! m) 0
          (fresh_objs uninit (length tests + m)) = Inr ((objs # new) ! m)"
    if "m < length (l # pieces newline r)" for m
  proof (cases m)
    case 0
    then show ?thesis using first by simp
  next
    case (Suc m')
    then have "m' < length (pieces newline r)" using that by simp
    from each [rule_format, OF this] show ?thesis using Suc by simp
  qed
  then show ?case unfolding p using step res len by (intro exI [of _ "objs # new"]) simp
qed


lemma parse_header_columns:
  "parse_header header 0 ({}, {}) = (Collect (read_column header), Collect (write_column header))"
  by (auto simp: parse_header_sets read_column_def write_column_def)

lemma load_file_opened:
  "fs path = Some source \<Longrightarrow> getline newline source = Some (header, content) \<Longrightarrow>
   load_file fs uninit path tests =
     parse_lines (Collect (read_column header)) (Collect (write_column header)) uninit content tests"
  by (simp add: load_file_def parse_header_columns)


lemma run_tests_calls:
  "run_tests tests i calls =
     calls @ map (\<lambda>n. (n, map (\<lambda>k. tests ! n ! k) [0..<numObjects])) [i..<length tests]"
proof (induction "length tests - i" arbitrary: i calls)
  case 0
  then show ?case by (subst run_tests.simps) simp
next
  case (Suc d)
  then have lt: "i < length tests" by simp
  have "d = length tests - (i + 1)" using Suc.hyps(2) by simp
  from Suc.hyps(1) [OF this] lt show ?case
    by (subst run_tests.simps) (simp add: upt_conv_Cons)
qed

lemma parse_cells_length:
  "parse_cells rd wr buf i objs = Inr objs' \<Longrightarrow> length objs' = length objs"
proof (induction "numObjects - i" arbitrary: buf i objs)
  case 0
  then have "\<not> i < numObjects" by simp
  with 0(2) show ?case by (subst (asm) parse_cells.simps) simp
next
  case (Suc d)
  then have i: "i < numObjects" and d: "d = numObjects - Suc i" by simp_all
  show ?case
  proof (cases "getline comma buf")
    case None
    with Suc.prems i show ?thesis by (subst (asm) parse_cells.simps) simp
  next
    case (Some vr)
    obtain v r where vr: "vr = (v, r)" by (cases vr)
    show ?thesis
    proof (cases "v \<noteq> [] \<and> (i \<in> rd \<or> i \<in> wr)")
      case False
      with Suc.prems i Some vr have "parse_cells rd wr r (Suc i) objs = Inr objs'"
        by (subst (asm) parse_cells.simps) auto
      from Suc.hyps(1) [OF d this] show ?thesis .
    next
      case True
      show ?thesis
      proof (cases "stoul v")
        case (Inl e)
        with Suc.prems i Some vr True have False
          by (subst (asm) parse_cells.simps) (auto split: stoul_exception.splits)
        then show ?thesis ..
      next
        case (Inr a)
        with Suc.prems i Some vr True
        have "parse_cells rd wr r (Suc i)
                (objs[i := \<lparr>valid = True, write_flag = (i \<in> wr), object = ucast a\<rparr>]) = Inr objs'"
          by (subst (asm) parse_cells.simps) auto
        from Suc.hyps(1) [OF d this] show ?thesis by simp
      qed
    qed
  qed
qed

lemma parse_lines_lengths:
  "parse_lines rd wr uninit src tests = Inr tests' \<Longrightarrow>
   \<forall>t\<in>set tests. length t = numObjects \<Longrightarrow> \<forall>t\<in>set tests'. length t = numObjects"
proof (induction "pieces newline src" arbitrary: src tests)
  case Nil
  from Nil(1) [symmetric] have "getline newline src = None" by (simp add: pieces_Nil_iff)
  with Nil(2) have "tests' = tests" by (subst (asm) parse_lines.simps) simp
  with Nil(3) show ?case by simp
next
  case (Cons l ls)
  from Cons.hyps(2) [symmetric] obtain r where
    g: "getline newline src = Some (l, r)" and r: "ls = pieces newline r"
    by (auto simp: pieces_Cons_iff)
  show ?case
  proof (cases "parse_cells rd wr l 0 (fresh_objs uninit (length tests))")
    case (Inl c)
    with Cons.prems(1) g have False by (subst (asm) parse_lines.simps) simp
    then show ?thesis ..
  next
    case (Inr objs)
    with Cons.prems(1) g have rec: "parse_lines rd wr uninit r (tests @ [objs]) = Inr tests'"
      by (subst (asm) parse_lines.simps) simp
    from parse_cells_length [OF Inr] have "length objs = numObjects"
      by (simp add: length_fresh_objs)
    with Cons.prems(2) have "\<forall>t\<in>set (tests @ [objs]). length t = numObjects" by simp
    from Cons.hyps(1) [OF r rec this] show ?thesis .
  qed
qed

lemma load_file_lengths:
  assumes "load_file fs uninit p tests = Inr tests'" and "\<forall>t\<in>set tests. length t = numObjects"
  shows "\<forall>t\<in>set tests'. length t = numObjects"
proof (cases "fs p")
  case None
  with assms(1) show ?thesis by (simp add: load_file_def)
next
  case (Some source)
  show ?thesis
  proof (cases "getline newline source")
    case None
    with assms(1) Some show ?thesis by (simp add: load_file_def)
  next
    case (Some hc)
    obtain header content where hc: "hc = (header, content)" by (cases hc)
    from assms(1) \<open>fs p = Some source\<close> Some [unfolded hc]
      load_file_opened [of fs p source header content uninit tests]
    have "parse_lines (Collect (read_column header)) (Collect (write_column header))
            uninit content tests = Inr tests'" by simp
    from parse_lines_lengths [OF this assms(2)] show ?thesis .
  qed
qed

lemma load_files_lengths:
  "load_files fs uninit ps tests = Inr tests' \<Longrightarrow>
   \<forall>t\<in>set tests. length t = numObjects \<Longrightarrow> \<forall>t\<in>set tests'. length t = numObjects"
proof (induction ps arbitrary: tests)
  case Nil
  then show ?case by simp
next
  case (Cons p ps)
  from Cons.prems(1) obtain t1 where
    f: "load_file fs uninit p tests = Inr t1" and r: "load_files fs uninit ps t1 = Inr tests'"
    by (auto split: sum.splits)
  from f Cons.prems(2) have "\<forall>t\<in>set t1. length t = numObjects"
    by (rule load_file_lengths)
  from Cons.IH [OF r this] show ?case .
qed

lemma default_tests_lengths:
  fixes uninit :: "nat \<Rightarrow> nat \<Rightarrow> ('a::len) word Object"
  shows "\<exists>tests. default_tests uninit = Inr tests \<and> length tests = 32 \<and>
           (\<forall>t\<in>set tests. length t = numObjects)"
proof -
  have "(8 :: 32 word) \<le> 8" by simp
  from gen_tests_result [OF this, of 4 8 uninit] show ?thesis
    by (auto simp: default_tests_def numObjects_def in_set_conv_nth)
qed

lemma run_tests_all:
  assumes "\<forall>t\<in>set tests. length t = numObjects"
  shows "run_tests tests 0 [] = map (\<lambda>n. (n, tests ! n)) [0..<length tests]"
proof -
  have "map (\<lambda>k. tests ! n ! k) [0..<numObjects] = tests ! n" if "n < length tests" for n
  proof -
    from that assms have "length (tests ! n) = numObjects" by simp
    then have "map (\<lambda>k. tests ! n ! k) [0..<numObjects] =
               map (\<lambda>k. tests ! n ! k) [0..<length (tests ! n)]" by simp
    then show ?thesis by (simp only: map_nth)
  qed
  then show ?thesis by (simp add: run_tests_calls)
qed

lemma calls_in_order:
  "map fst (map (\<lambda>n. (n, tests ! n)) [0..<length tests]) = [0..<length tests] \<and>
   map snd (map (\<lambda>n. (n, tests ! n)) [0..<length tests]) = tests"
  by (simp add: comp_def map_nth)

lemma parse_line_slots:
  fixes uninit :: "nat \<Rightarrow> nat \<Rightarrow> ('a::len) word Object"
  assumes "\<forall>k. populated header line k \<longrightarrow> (\<exists>a. stoul (cells line ! k) = Inr a)"
  shows "\<exists>objs. parse_cells (Collect (read_column header)) (Collect (write_column header)) line 0
                  (fresh_objs uninit n) = Inr objs \<and>
           length objs = numObjects \<and>
           (\<forall>k<numObjects. objs ! k =
              (if populated header line k
               then \<lparr>valid = True, write_flag = write_column header k,
                     object = ucast (projr (stoul (cells line ! k)))\<rparr>
               else uninit n k))"
proof -
  have ok: "\<forall>k<length (cells line). 0 + k < numObjects \<longrightarrow> cells line ! k \<noteq> [] \<longrightarrow>
             (0 + k \<in> Collect (read_column header) \<or> 0 + k \<in> Collect (write_column header)) \<longrightarrow>
             (\<exists>a. stoul (cells line ! k) = Inr a)"
    using assms by (simp add: populated_def)
  from parse_cells_ok [OF ok, of "fresh_objs uninit n"] obtain objs where
    res: "parse_cells (Collect (read_column header)) (Collect (write_column header)) line 0
            (fresh_objs uninit n) = Inr objs" and
    len: "length objs = length (fresh_objs uninit n)" and
    slots: "\<forall>k<length (fresh_objs uninit n). objs ! k =
              (if 0 \<le> k \<and> k < numObjects \<and> k - 0 < length (cells line) \<and>
                  cells line ! (k - 0) \<noteq> [] \<and>
                  (k \<in> Collect (read_column header) \<or> k \<in> Collect (write_column header))
               then \<lparr>valid = True, write_flag = (k \<in> Collect (write_column header)),
                     object = ucast (projr (stoul (cells line ! (k - 0))))\<rparr>
               else fresh_objs uninit n ! k)"
    by blast
  have "objs ! k =
              (if populated header line k
               then \<lparr>valid = True, write_flag = write_column header k,
                     object = ucast (projr (stoul (cells line ! k)))\<rparr>
               else uninit n k)" if "k < numObjects" for k
    using slots [rule_format, of k] that
    by (auto simp: length_fresh_objs nth_fresh_objs populated_def)
  with res len show ?thesis by (simp add: length_fresh_objs)
qed


lemma load_file_slots:
  fixes uninit :: "nat \<Rightarrow> nat \<Rightarrow> ('a::len) word Object"
  assumes "fs path = Some source" and "getline newline source = Some (header, content)"
    and "\<forall>m<length (pieces newline content). \<forall>k. populated header (pieces newline content ! m) k \<longrightarrow>
           (\<exists>a. stoul (cells (pieces newline content ! m) ! k) = Inr a)"
  shows "\<exists>new. load_file fs uninit path tests = Inr (tests @ new) \<and>
           length new = length (pieces newline content) \<and>
           (\<forall>m<length (pieces newline content). length (new ! m) = numObjects \<and>
              (\<forall>k<numObjects. new ! m ! k =
                 (if populated header (pieces newline content ! m) k
                  then \<lparr>valid = True, write_flag = write_column header k,
                        object = ucast (projr (stoul (cells (pieces newline content ! m) ! k)))\<rparr>
                  else uninit (length tests + m) k)))"
proof -
  let ?rd = "Collect (read_column header)" and ?wr = "Collect (write_column header)"
  have each: "\<exists>objs. parse_cells ?rd ?wr (pieces newline content ! m) 0
                  (fresh_objs uninit (length tests + m)) = Inr objs \<and>
           length objs = numObjects \<and>
           (\<forall>k<numObjects. objs ! k =
              (if populated header (pieces newline content ! m) k
               then \<lparr>valid = True, write_flag = write_column header k,
                     object = ucast (projr (stoul (cells (pieces newline content ! m) ! k)))\<rparr>
               else uninit (length tests + m) k))"
    if "m < length (pieces newline content)" for m
    using assms(3) [rule_format, OF that] by (intro parse_line_slots) blast
  then have "\<forall>m<length (pieces newline content).
             \<exists>objs. parse_cells ?rd ?wr (pieces newline content ! m) 0
                      (fresh_objs uninit (length tests + m)) = Inr objs" by blast
  from parse_lines_ok [OF this] obtain new where
    res: "parse_lines ?rd ?wr uninit content tests = Inr (tests @ new)" and
    len: "length new = length (pieces newline content)" and
    lines: "\<forall>m<length (pieces newline content).
              parse_cells ?rd ?wr (pieces newline content ! m) 0
                (fresh_objs uninit (length tests + m)) = Inr (new ! m)"
    by blast
  have "length (new ! m) = numObjects \<and>
              (\<forall>k<numObjects. new ! m ! k =
                 (if populated header (pieces newline content ! m) k
                  then \<lparr>valid = True, write_flag = write_column header k,
                        object = ucast (projr (stoul (cells (pieces newline content ! m) ! k)))\<rparr>
                  else uninit (length tests + m) k))"
    if "m < length (pieces newline content)" for m
    using each [OF that] lines [rule_format, OF that] by auto
  then show ?thesis
    using res len load_file_opened [of fs path source header content uninit tests] assms(1,2)
    by auto
qed









lemma digit_plain: "isdigit c \<Longrightarrow> \<not> isspace c \<and> c \<noteq> CHR ''-'' \<and> c \<noteq> CHR ''+''"
  by (auto simp: isdigit_def isspace_def)

lemma unsigned_integer_digits:
  assumes "is_unsigned_integer s"
  shows "leading_digits s = s" and "\<not> negative s"
proof -
  from assms obtain c r where s: "s = c # r" and c: "isdigit c" and r: "list_all isdigit r"
    by (cases s) (auto simp: is_unsigned_integer_def)
  from digit_plain [OF c] have d: "dropWhile isspace s = s" "skip_sign s = s"
    unfolding s by (simp_all add: skip_sign_def)
  from c r have "takeWhile isdigit s = s"
    unfolding s by (simp add: takeWhile_eq_all_conv list_all_iff)
  with d show "leading_digits s = s" by (simp add: leading_digits_def)
  from digit_plain [OF c] d show "\<not> negative s" unfolding s by (simp add: negative_def)
qed

lemma getline_last:
  assumes "s \<noteq> []" and "d \<notin> set s"
  shows "getline d s = Some (s, [])"
proof -
  from assms(2) have t: "takeWhile (\<lambda>c. c \<noteq> d) s = s" and r: "dropWhile (\<lambda>c. c \<noteq> d) s = []"
    by auto
  show ?thesis unfolding getline_def t r using assms(1) by simp
qed

lemma getline_next:
  assumes "d \<notin> set s"
  shows "getline d (s @ d # rest) = Some (s, rest)"
proof -
  from assms have t: "takeWhile (\<lambda>c. c \<noteq> d) (s @ d # rest) = s"
    and r: "dropWhile (\<lambda>c. c \<noteq> d) (s @ d # rest) = d # rest"
    by (auto simp: takeWhile_append dropWhile_append)
  show ?thesis unfolding getline_def t r by simp
qed

lemma parse_cells_end: "parse_cells rd wr [] i objs = Inr objs"
  by (subst parse_cells.simps) (simp add: getline_def)

lemma parse_cells_marked:
  fixes objs :: "('a::len) word Object list"
  assumes "getline comma buf = Some (cell, rest)" and "cell \<noteq> []" and "i < numObjects"
    and "i \<in> rd \<or> i \<in> wr"
  shows "parse_cells rd wr buf i objs =
     (if leading_digits cell = [] then Inl 3
      else if ULONG_MAX < digits_value (leading_digits cell) then Inl 4
      else parse_cells rd wr rest (Suc i)
             (objs[i := \<lparr>valid = True, write_flag = (i \<in> wr),
                object = ucast (if negative cell
                                then - word_of_nat (digits_value (leading_digits cell))
                                else word_of_nat (digits_value (leading_digits cell)) :: 64 word)\<rparr>]))"
  using assms by (subst parse_cells.simps) (auto simp: stoul_def)

lemma parse_cells_past: "\<not> i < numObjects \<Longrightarrow> parse_cells rd wr buf i objs = Inr objs"
  by (subst parse_cells.simps) simp

lemma parse_cells_same:
  fixes objs :: "('a::len) word Object list"
  assumes "length (cells l1) = length (cells l2)"
    and "\<forall>n<length (cells l1). i + n < numObjects \<longrightarrow> (i + n \<in> rd \<or> i + n \<in> wr) \<longrightarrow>
           cells l1 ! n = cells l2 ! n"
  shows "parse_cells rd wr l1 i objs = parse_cells rd wr l2 i objs"
  using assms
proof (induction "cells l1" arbitrary: l1 l2 i objs)
  case Nil
  from Nil(1) [symmetric] Nil(2) have "cells l1 = []" "cells l2 = []" by simp_all
  then have "getline comma l1 = None" "getline comma l2 = None" by (simp_all add: pieces_Nil_iff)
  then show ?case by (simp add: parse_cells.simps [of rd wr l1] parse_cells.simps [of rd wr l2])
next
  case (Cons c1 cs1)
  from Cons.hyps(2) [symmetric] obtain r1 where
    g1: "getline comma l1 = Some (c1, r1)" and r1: "cs1 = cells r1"
    by (auto simp: pieces_Cons_iff)
  have p1: "cells l1 = c1 # cells r1" using g1 by (rule pieces_Some)
  from Cons.prems(1) p1 obtain c2 cs2 where p2: "cells l2 = c2 # cs2"
    by (cases "cells l2") auto
  then obtain r2 where g2: "getline comma l2 = Some (c2, r2)" and r2: "cells r2 = cs2"
    by (auto simp: pieces_Cons_iff)
  have len: "length (cells r1) = length (cells r2)" using Cons.prems(1) p1 p2 r2 by simp
  have same: "\<forall>n<length (cells r1). Suc i + n < numObjects \<longrightarrow> (Suc i + n \<in> rd \<or> Suc i + n \<in> wr) \<longrightarrow>
           cells r1 ! n = cells r2 ! n"
  proof (intro allI impI)
    fix n assume "n < length (cells r1)" "Suc i + n < numObjects" "Suc i + n \<in> rd \<or> Suc i + n \<in> wr"
    with Cons.prems(2) [rule_format, of "Suc n"] p1 p2 r2 show "cells r1 ! n = cells r2 ! n"
      by simp
  qed
  note IH = Cons.hyps(1) [OF r1 len same]
  show ?case
  proof (cases "i < numObjects")
    case False
    then show ?thesis by (simp add: parse_cells_past)
  next
    case True
    show ?thesis
    proof (cases "i \<in> rd \<or> i \<in> wr")
      case False
      then show ?thesis
        using True g1 g2 IH
        by (simp add: parse_cells.simps [of rd wr l1] parse_cells.simps [of rd wr l2])
    next
      case marked: True
      with Cons.prems(2) [rule_format, of 0] True p1 p2 have "c1 = c2" by simp
      then show ?thesis
        using True g1 g2 IH
        by (simp add: parse_cells.simps [of rd wr l1] parse_cells.simps [of rd wr l2]
              split: sum.splits stoul_exception.splits)
    qed
  qed
qed

lemma parse_cells_unmarked_slot:
  "parse_cells rd wr buf i objs = Inr objs' \<Longrightarrow> k \<notin> rd \<Longrightarrow> k \<notin> wr \<Longrightarrow> objs' ! k = objs ! k"
proof (induction "numObjects - i" arbitrary: buf i objs)
  case 0
  then have "\<not> i < numObjects" by simp
  with 0(2) show ?case by (simp add: parse_cells_past)
next
  case (Suc d)
  then have i: "i < numObjects" and d: "d = numObjects - Suc i" by simp_all
  show ?case
  proof (cases "getline comma buf")
    case None
    with Suc.prems(1) i show ?thesis by (subst (asm) parse_cells.simps) simp
  next
    case (Some vr)
    obtain v r where vr: "vr = (v, r)" by (cases vr)
    show ?thesis
    proof (cases "v \<noteq> [] \<and> (i \<in> rd \<or> i \<in> wr)")
      case False
      with Suc.prems(1) i Some vr have "parse_cells rd wr r (Suc i) objs = Inr objs'"
        by (subst (asm) parse_cells.simps) auto
      from Suc.hyps(1) [OF d this Suc.prems(2,3)] show ?thesis .
    next
      case True
      with Suc.prems(2,3) have ki: "k \<noteq> i" by auto
      show ?thesis
      proof (cases "stoul v")
        case (Inl e)
        with Suc.prems(1) i Some vr True have False
          by (subst (asm) parse_cells.simps) (auto split: stoul_exception.splits)
        then show ?thesis ..
      next
        case (Inr a)
        with Suc.prems(1) i Some vr True
        have "parse_cells rd wr r (Suc i)
                (objs[i := \<lparr>valid = True, write_flag = (i \<in> wr), object = ucast a\<rparr>]) = Inr objs'"
          by (subst (asm) parse_cells.simps) auto
        from Suc.hyps(1) [OF d this Suc.prems(2,3)] ki show ?thesis by simp
      qed
    qed
  qed
qed

subsection \<open>The example file\<close>

lemmas eval_simps = getline_def isspace_def isdigit_def digits_value_def ULONG_MAX_def
  skip_sign_def leading_digits_def negative_def stoul_def
  parse_header.simps parse_cells.simps parse_lines.simps pieces.simps load_file_def
  numObjects_def fresh_objs_def

lemma example_lines: "pieces newline example_content = [''3,4,x'', ''5,,y'']"
  by (simp add: example_content_def pieces.simps getline_def)

lemma example_cells: "cells ''3,4,x'' = [''3'', ''4'', ''x'']" "cells ''5,,y'' = [''5'', '''', ''y'']"
  by (simp_all add: pieces.simps getline_def)

lemma example_columns:
  "read_column example_header k \<longleftrightarrow> k = 0" "write_column example_header k \<longleftrightarrow> k = 1"
  by (auto simp: read_column_def write_column_def example_header_def pieces.simps getline_def
        less_Suc_eq numeral_3_eq_3)

lemma example_populated:
  "populated example_header ''3,4,x'' k \<longleftrightarrow> k = 0 \<or> k = 1"
  "populated example_header ''5,,y'' k \<longleftrightarrow> k = 0"
  by (auto simp: populated_def example_cells example_columns numObjects_def)

lemma example_load:
  "load_files example_fs zeroed [''t.csv''] [] =
     Inr [(fresh_objs zeroed 0)[0 := \<lparr>valid = True, write_flag = False, object = 3\<rparr>,
                                1 := \<lparr>valid = True, write_flag = True, object = 4\<rparr>],
          (fresh_objs zeroed 1)[0 := \<lparr>valid = True, write_flag = False, object = 5\<rparr>]]"
  by (simp add: eval_simps example_fs_def example_header_def example_content_def)




section \<open>The default tests: the statements of the specification\<close>

text \<open>
  \<^bold>\<open>C1.\<close> For every transaction index \<open>i\<close> below \<open>numTests * maxScheduledObjects\<close> and
  every pair index \<open>j\<close> below \<open>objSetSize\<close>, slot \<open>2 * j\<close> of transaction \<open>i\<close> is a valid
  read access to object \<open>objSetSize * i * 2 + j * 2\<close>, and slot \<open>2 * j + 1\<close> is a valid
  write access whose object is chosen by \<open>i mod 4\<close>: \<open>objSetSize * i * 2 + j * 2 + 1\<close> for
  0, \<open>objSetSize * (i - 1) * 2 + j * 2 + 1\<close> for 1, \<open>objSetSize * (i mod 2) * 2 + j * 2 + 1\<close>
  for 2 and \<open>objSetSize * 2 + j * 2 + 1\<close> for 3. The numbers are natural numbers: the
  theorem asks that \<open>objSetSize\<close> is at most 8 (the sixteen slots hold the pairs) and that
  the largest of these values fits the 32 bits of \<^verbatim>\<open>unsigned\<close> and the width of
  \<^verbatim>\<open>ObjectAddress\<close>, as it does for the values 4, 8 and 8 of the source.
\<close>

theorem default_test_objects:
  fixes uninit :: "nat \<Rightarrow> nat \<Rightarrow> ('a::len) word Object"
  assumes "objSetSize \<le> 8"
    and "i < unat (numTests * maxScheduledObjects)"
    and "j < unat objSetSize"
    and "unat objSetSize * i * 2 + j * 2 + 1 < 2 ^ 32"
    and "unat objSetSize * i * 2 + j * 2 + 1 < 2 ^ LENGTH('a)"
  shows "\<exists>tests. gen_tests numTests maxScheduledObjects objSetSize uninit 0 [] = Inr tests \<and>
           length tests = unat (numTests * maxScheduledObjects) \<and>
           valid (tests ! i ! (2 * j)) \<and> \<not> write_flag (tests ! i ! (2 * j)) \<and>
           unat (object (tests ! i ! (2 * j))) = unat objSetSize * i * 2 + j * 2 \<and>
           valid (tests ! i ! (2 * j + 1)) \<and> write_flag (tests ! i ! (2 * j + 1)) \<and>
           unat (object (tests ! i ! (2 * j + 1))) =
             (if i mod 4 = 0 then unat objSetSize * i * 2 + j * 2 + 1
              else if i mod 4 = 1 then unat objSetSize * (i - 1) * 2 + j * 2 + 1
              else if i mod 4 = 2 then unat objSetSize * (i mod 2) * 2 + j * 2 + 1
              else unat objSetSize * 2 + j * 2 + 1)"
proof -
  let ?I = "word_of_nat i :: 32 word" and ?J = "word_of_nat j :: 32 word"
  have s8: "unat objSetSize \<le> 8" using assms(1) by (simp add: word_le_nat_alt)
  have "i < 2 ^ LENGTH(32)" using assms(2) unsigned_less [of "numTests * maxScheduledObjects"]
    by (rule less_trans)
  then have uI: "unat ?I = i" by (simp add: unat_of_nat)
  have "j < 2 ^ LENGTH(32)" using assms(3) s8 by simp
  then have uJ: "unat ?J = j" by (simp add: unat_of_nat)
  have k0: "2 * j < numObjects" "2 * j < 2 * unat objSetSize"
    and k1: "2 * j + 1 < numObjects" "2 * j + 1 < 2 * unat objSetSize"
    using assms(3) s8 by (simp_all add: numObjects_def)
  obtain tests where
    res: "gen_tests numTests maxScheduledObjects objSetSize uninit 0 [] = Inr tests" and
    len: "length tests = unat (numTests * maxScheduledObjects)" and
    slots: "\<forall>i<length tests. length (tests ! i) = numObjects \<and>
              (\<forall>k<numObjects. tests ! i ! k =
                 (if k < 2 * unat objSetSize then synth_slot objSetSize (word_of_nat i) k
                  else uninit i k))"
    using gen_tests_result [OF assms(1), of numTests maxScheduledObjects uninit] by blast
  from slots len assms(2) k0 have r: "tests ! i ! (2 * j) = synth_slot objSetSize ?I (2 * j)"
    by simp
  from slots len assms(2) k1 have w: "tests ! i ! (2 * j + 1) = synth_slot objSetSize ?I (2 * j + 1)"
    by simp
  have b32: "unat objSetSize * unat ?I * 2 + unat ?J * 2 + unat (1 :: 32 word) < 2 ^ 32"
    using assms(4) by (simp only: uI uJ unat_1)
  have "unat objSetSize * unat ?I * 2 + unat ?J * 2 + unat (0 :: 32 word) < 2 ^ 32"
    using assms(4) by (simp only: uI uJ unat_0)
  from unat_addr [OF this]
  have ra: "unat (objSetSize * ?I * 2 + ?J * 2) = unat objSetSize * i * 2 + j * 2"
    by (simp add: uI uJ)
  have wa: "unat (write_target objSetSize ?I ?J) =
             (if i mod 4 = 0 then unat objSetSize * i * 2 + j * 2 + 1
              else if i mod 4 = 1 then unat objSetSize * (i - 1) * 2 + j * 2 + 1
              else if i mod 4 = 2 then unat objSetSize * (i mod 2) * 2 + j * 2 + 1
              else unat objSetSize * 2 + j * 2 + 1)"
    using unat_write_target [of objSetSize ?I ?J] b32 by (simp only: uI uJ unat_1)
  have wle: "unat (write_target objSetSize ?I ?J) \<le> unat objSetSize * i * 2 + j * 2 + 1"
  proof -
    have "unat objSetSize * (i - 1) \<le> unat objSetSize * i"
      and "unat objSetSize * (i mod 2) \<le> unat objSetSize * i"
      by (rule mult_le_mono2, simp)+
    moreover have "unat objSetSize * 1 \<le> unat objSetSize * i" if "i mod 4 = 3"
    proof -
      from that have "1 \<le> i" by presburger
      then show ?thesis by (rule mult_le_mono2)
    qed
    moreover have "i mod 4 = 0 \<or> i mod 4 = 1 \<or> i mod 4 = 2 \<or> i mod 4 = 3"
      by presburger
    ultimately show ?thesis unfolding wa by auto
  qed
  have ro: "unat (object (tests ! i ! (2 * j))) = unat objSetSize * i * 2 + j * 2"
    unfolding r using ra assms(5) by (simp add: synth_slot_def unat_ucast_small)
  have "unat (ucast (write_target objSetSize ?I ?J) :: 'a word) = unat (write_target objSetSize ?I ?J)"
    using wle assms(5) by (intro unat_ucast_small) simp
  then have wo: "unat (object (tests ! i ! (2 * j + 1))) = unat (write_target objSetSize ?I ?J)"
    unfolding w by (simp add: synth_slot_def)
  have flags: "valid (tests ! i ! (2 * j))" "\<not> write_flag (tests ! i ! (2 * j))"
    "valid (tests ! i ! (2 * j + 1))" "write_flag (tests ! i ! (2 * j + 1))"
    unfolding r w by (simp_all add: synth_slot_def)
  show ?thesis
    using res len flags ro wo wa by simp
qed

theorem default_test_objects_witness:
  "(5 :: nat) < unat (4 * 8 :: 32 word) \<and> (3 :: nat) < unat (8 :: 32 word) \<and>
   (\<exists>tests. default_tests zeroed = Inr tests \<and> length tests = 32 \<and>
      valid (tests ! 5 ! 6) \<and> \<not> write_flag (tests ! 5 ! 6) \<and> unat (object (tests ! 5 ! 6)) = 86 \<and>
      valid (tests ! 5 ! 7) \<and> write_flag (tests ! 5 ! 7) \<and> unat (object (tests ! 5 ! 7)) = 71)"
  using default_test_objects [of 8 5 4 8 3 zeroed]
  by (simp add: default_tests_def numObjects_def)

text \<open>
  \<^bold>\<open>C3.\<close> The generator produces exactly \<open>numTests * maxScheduledObjects\<close> transactions
  (32 for the values 4 and 8 of the source), and every one of them has exactly
  \<open>2 * objSetSize\<close> valid slots, the first ones, and no other valid slot. The source sets
  \<open>objSetSize\<close> to \<open>numObjects / 2 = 8\<close>, so the loop stores to all sixteen slots and the
  second hypothesis is about no slot at all; for a smaller \<open>objSetSize\<close> the slots from
  \<open>2 * objSetSize\<close> on are never stored to and keep what the array held when it was
  declared, which the second hypothesis takes to be invalid.
\<close>

theorem default_tests_count:
  fixes uninit :: "nat \<Rightarrow> nat \<Rightarrow> ('a::len) word Object"
  assumes "objSetSize \<le> 8"
    and "\<forall>n k. 2 * unat objSetSize \<le> k \<longrightarrow> k < numObjects \<longrightarrow> \<not> valid (uninit n k)"
  shows "\<exists>tests. gen_tests numTests maxScheduledObjects objSetSize uninit 0 [] = Inr tests \<and>
           length tests = unat (numTests * maxScheduledObjects) \<and>
           (\<forall>t\<in>set tests. length t = numObjects \<and>
              length (filter valid t) = 2 * unat objSetSize \<and>
              (\<forall>k<numObjects. valid (t ! k) \<longleftrightarrow> k < 2 * unat objSetSize))"
proof -
  have s8: "unat objSetSize \<le> 8" using assms(1) by (simp add: word_le_nat_alt)
  obtain tests where
    res: "gen_tests numTests maxScheduledObjects objSetSize uninit 0 [] = Inr tests" and
    len: "length tests = unat (numTests * maxScheduledObjects)" and
    slots: "\<forall>i<length tests. length (tests ! i) = numObjects \<and>
              (\<forall>k<numObjects. tests ! i ! k =
                 (if k < 2 * unat objSetSize then synth_slot objSetSize (word_of_nat i) k
                  else uninit i k))"
    using gen_tests_result [OF assms(1), of numTests maxScheduledObjects uninit] by blast
  have "length t = numObjects \<and> length (filter valid t) = 2 * unat objSetSize \<and>
        (\<forall>k<numObjects. valid (t ! k) \<longleftrightarrow> k < 2 * unat objSetSize)" if "t \<in> set tests" for t
  proof -
    from that obtain i where i: "i < length tests" and t: "t = tests ! i"
      by (auto simp: in_set_conv_nth)
    from slots i t have lt: "length t = numObjects"
      and st: "\<forall>k<numObjects. t ! k =
                 (if k < 2 * unat objSetSize then synth_slot objSetSize (word_of_nat i) k
                  else uninit i k)" by simp_all
    have v: "valid (t ! k) \<longleftrightarrow> k < 2 * unat objSetSize" if "k < numObjects" for k
      using st [rule_format, OF that] assms(2) [rule_format, of k i] that
      by (auto simp: synth_slot_def)
    have "2 * unat objSetSize \<le> length t" using s8 lt by (simp add: numObjects_def)
    then have "length (filter valid t) = 2 * unat objSetSize"
      using v lt by (intro count_valid_prefix) simp_all
    with lt v show ?thesis by simp
  qed
  with res len show ?thesis by blast
qed

theorem default_tests_count_witness:
  "\<exists>tests. default_tests (\<lambda>n k. \<lparr>valid = True, write_flag = False, object = (0 :: 32 word)\<rparr>)
             = Inr tests \<and>
     length tests = 32 \<and>
     list_all (\<lambda>t. length t = 16 \<and> length (filter valid t) = 16) tests"
proof -
  have a: "(8 :: 32 word) \<le> 8" by simp
  have b: "\<forall>n k. 2 * unat (8 :: 32 word) \<le> k \<longrightarrow> k < numObjects \<longrightarrow>
             \<not> valid (\<lparr>valid = True, write_flag = False, object = (0 :: 32 word)\<rparr>)"
    by (simp add: numObjects_def)
  from default_tests_count [OF a b, of 4 8] show ?thesis
    by (simp add: default_tests_def numObjects_def list_all_iff) blast
qed

section \<open>Loading and running: the statements of the specification\<close>

text \<open>
  \<^bold>\<open>C2\<close> says that loading yields one transaction per content line, in file order, and
  that slot \<open>k\<close> of a transaction is valid, with the write flag of its column and the
  parsed number as object, exactly when column \<open>k\<close> is a read or write column and its
  cell is not empty. The loader stores to slot \<open>k\<close> exactly then, and what it stores is
  as the claim has it (\<open>load_file_slots\<close>); but a slot it does not store to is not
  invalid: the array is declared without an initialiser (line 120) and keeps what the
  memory held. Loading \<^verbatim>\<open>t.csv\<close>, with the array of the second line declared over what
  the first line left, submits two transactions, and the second has in slot 1 a valid
  write of object 4, although column 1 is a write column and its cell on the second
  line \<^verbatim>\<open>5,,y\<close> is empty. The valid slots of the second transaction are the two cells
  of the first line with the 3 replaced by 5, not the one marked cell of the second
  line. This is the missing initialiser of C5.
\<close>

theorem empty_cell_of_write_column_is_valid:
  "pieces newline example_content ! 1 = ''5,,y'' \<and>
   write_column example_header 1 \<and> cells ''5,,y'' ! 1 = [] \<and>
   (\<exists>t0 t1. main example_fs carried [''t.csv''] = (Waiting, [(0, t0), (1, t1)]) \<and>
      t0 ! 0 = \<lparr>valid = True, write_flag = False, object = 3\<rparr> \<and>
      t0 ! 1 = \<lparr>valid = True, write_flag = True, object = 4\<rparr> \<and>
      t1 ! 0 = \<lparr>valid = True, write_flag = False, object = 5\<rparr> \<and>
      t1 ! 1 = \<lparr>valid = True, write_flag = True, object = 4\<rparr>)"
  by (simp add: main_def run_tests.simps eval_simps example_fs_def example_header_def
        example_content_def write_column_def upt_conv_Cons carried_def)





text \<open>
  \<^bold>\<open>C7\<close> says that a non-empty cell of a read or write column makes the loader fail with
  exit code 3 exactly when its text is not a valid unsigned integer. The cell
  \<^verbatim>\<open>12abc\<close> is none, and the loader takes it for the address 12: \<^verbatim>\<open>std::stoul\<close>
  converts the leading digits and ignores what follows them.
\<close>

theorem trailing_text_is_accepted:
  "\<not> is_unsigned_integer ''12abc'' \<and>
   main trailing_fs zeroed [''c.csv''] =
     (Waiting, [(0, (fresh_objs zeroed 0)[0 := \<lparr>valid = True, write_flag = False, object = 12\<rparr>])])"
  by (simp add: is_unsigned_integer_def main_def run_tests.simps eval_simps trailing_fs_def
        upt_conv_Cons zeroed_def)


text \<open>
  \<^bold>\<open>C7, as the code has it.\<close> A non-empty cell of a read or write column, at one of the
  first sixteen places of its line, is given to \<^verbatim>\<open>std::stoul\<close>. The loader returns 3
  exactly when the cell, after leading white space and one optional sign, does not start
  with a decimal digit, and 4 exactly when it does and the value of the digits there is
  above \<^verbatim>\<open>ULONG_MAX\<close>, whatever the width of \<^verbatim>\<open>ObjectAddress\<close>. Otherwise it stores to
  the slot the value of these digits, negated modulo \<open>2 ^ 64\<close> after a minus sign and
  converted to \<^verbatim>\<open>ObjectAddress\<close>, and goes on with the next cell; the characters after
  the digits are ignored. In particular a cell of decimal digits only, whose value is at
  most \<^verbatim>\<open>ULONG_MAX\<close> and fits \<^verbatim>\<open>ObjectAddress\<close>, yields exactly that address. The first
  equation is for the last cell of a line, the second for a cell that others follow.
\<close>

theorem marked_cell_outcome:
  fixes objs :: "('a::len) word Object list"
  assumes "cell \<noteq> []" and "comma \<notin> set cell" and "i < numObjects" and "i \<in> rd \<or> i \<in> wr"
  shows "parse_cells rd wr cell i objs =
           (if leading_digits cell = [] then Inl 3
            else if ULONG_MAX < digits_value (leading_digits cell) then Inl 4
            else Inr (objs[i := \<lparr>valid = True, write_flag = (i \<in> wr),
                   object = ucast (if negative cell
                                   then - word_of_nat (digits_value (leading_digits cell))
                                   else word_of_nat (digits_value (leading_digits cell)) :: 64 word)\<rparr>])) \<and>
         parse_cells rd wr (cell @ comma # rest) i objs =
           (if leading_digits cell = [] then Inl 3
            else if ULONG_MAX < digits_value (leading_digits cell) then Inl 4
            else parse_cells rd wr rest (Suc i)
                   (objs[i := \<lparr>valid = True, write_flag = (i \<in> wr),
                      object = ucast (if negative cell
                                      then - word_of_nat (digits_value (leading_digits cell))
                                      else word_of_nat (digits_value (leading_digits cell)) :: 64 word)\<rparr>])) \<and>
         (is_unsigned_integer cell \<longrightarrow> digits_value cell \<le> ULONG_MAX \<longrightarrow>
          digits_value cell < 2 ^ LENGTH('a) \<longrightarrow> i < length objs \<longrightarrow>
            (\<exists>objs'. parse_cells rd wr cell i objs = Inr objs' \<and>
               valid (objs' ! i) \<and> unat (object (objs' ! i)) = digits_value cell))"
proof (intro conjI impI)
  from assms(1,2) have g: "getline comma cell = Some (cell, [])" by (rule getline_last)
  show last: "parse_cells rd wr cell i objs =
           (if leading_digits cell = [] then Inl 3
            else if ULONG_MAX < digits_value (leading_digits cell) then Inl 4
            else Inr (objs[i := \<lparr>valid = True, write_flag = (i \<in> wr),
                   object = ucast (if negative cell
                                   then - word_of_nat (digits_value (leading_digits cell))
                                   else word_of_nat (digits_value (leading_digits cell)) :: 64 word)\<rparr>]))"
    by (simp add: parse_cells_marked [OF g assms(1,3,4)] parse_cells_end)
  from assms(2) have g': "getline comma (cell @ comma # rest) = Some (cell, rest)"
    by (rule getline_next)
  show "parse_cells rd wr (cell @ comma # rest) i objs =
           (if leading_digits cell = [] then Inl 3
            else if ULONG_MAX < digits_value (leading_digits cell) then Inl 4
            else parse_cells rd wr rest (Suc i)
                   (objs[i := \<lparr>valid = True, write_flag = (i \<in> wr),
                      object = ucast (if negative cell
                                      then - word_of_nat (digits_value (leading_digits cell))
                                      else word_of_nat (digits_value (leading_digits cell)) :: 64 word)\<rparr>]))"
    by (rule parse_cells_marked [OF g' assms(1,3,4)])
  assume u: "is_unsigned_integer cell" and r: "digits_value cell \<le> ULONG_MAX"
    and w: "digits_value cell < 2 ^ LENGTH('a)" and i: "i < length objs"
  note d = unsigned_integer_digits [OF u]
  from r have "digits_value cell < 2 ^ LENGTH(64)" by (simp add: ULONG_MAX_def)
  then have "unat (word_of_nat (digits_value cell) :: 64 word) = digits_value cell"
    by (simp add: unat_of_nat)
  with w have "unat (ucast (word_of_nat (digits_value cell) :: 64 word) :: 'a word) = digits_value cell"
    by (simp add: unsigned_ucast_eq take_bit_nat_eq_self)
  with last d u r i
  show "\<exists>objs'. parse_cells rd wr cell i objs = Inr objs' \<and>
               valid (objs' ! i) \<and> unat (object (objs' ! i)) = digits_value cell"
    by (simp add: is_unsigned_integer_def)
qed

theorem marked_cell_outcome_witness:
  "parse_cells {0} {} ''12abc'' 0 (fresh_objs zeroed 0) =
     Inr ((fresh_objs zeroed 0)[0 := \<lparr>valid = True, write_flag = False, object = 12\<rparr>]) \<and>
   parse_cells {0} {} '' -1'' 0 (fresh_objs zeroed 0) =
     Inr ((fresh_objs zeroed 0)[0 := \<lparr>valid = True, write_flag = False, object = ucast (- 1 :: 64 word)\<rparr>]) \<and>
   parse_cells {0} {} ''abc'' 0 (fresh_objs zeroed 0) = Inl 3 \<and>
   parse_cells {0} {} ''99999999999999999999'' 0 (fresh_objs zeroed 0) = Inl 4 \<and>
   parse_cells {} {1} ''7,18446744073709551616'' 0 (fresh_objs zeroed 0) = Inl 4 \<and>
   (\<exists>objs'. parse_cells {} {1} ''42'' 1 (fresh_objs zeroed 0) = Inr objs' \<and>
      valid (objs' ! 1) \<and> unat (object (objs' ! 1)) = 42)"
proof -
  note inst = marked_cell_outcome [where objs = "fresh_objs zeroed 0"]
  have a: "parse_cells {0} {} ''12abc'' 0 (fresh_objs zeroed 0) =
     Inr ((fresh_objs zeroed 0)[0 := \<lparr>valid = True, write_flag = False, object = 12\<rparr>])"
    using inst [of "''12abc''" 0 "{0}" "{}", THEN conjunct1]
    by (simp add: eval_simps)
  have b: "parse_cells {0} {} '' -1'' 0 (fresh_objs zeroed 0) =
     Inr ((fresh_objs zeroed 0)[0 := \<lparr>valid = True, write_flag = False, object = ucast (- 1 :: 64 word)\<rparr>])"
    using inst [of "'' -1''" 0 "{0}" "{}", THEN conjunct1]
    by (simp add: eval_simps)
  have c: "parse_cells {0} {} ''abc'' 0 (fresh_objs zeroed 0) = Inl 3"
    using inst [of "''abc''" 0 "{0}" "{}", THEN conjunct1]
    by (simp add: eval_simps)
  have d: "parse_cells {0} {} ''99999999999999999999'' 0 (fresh_objs zeroed 0) = Inl 4"
    using inst [of "''99999999999999999999''" 0 "{0}" "{}", THEN conjunct1]
    by (simp add: eval_simps)
  have e: "parse_cells {} {1} ''7,18446744073709551616'' 0 (fresh_objs zeroed 0) = Inl 4"
    using inst [of "''18446744073709551616''" 1 "{}" "{1}", THEN conjunct1]
    by (simp add: eval_simps)
  have f: "\<exists>objs'. parse_cells {} {1} ''42'' 1 (fresh_objs zeroed 0) = Inr objs' \<and>
      valid (objs' ! 1) \<and> unat (object (objs' ! 1)) = 42"
    using inst [of "''42''" 1 "{}" "{1}", THEN conjunct2, THEN conjunct2]
    by (simp add: is_unsigned_integer_def eval_simps)
  from a b c d e f show ?thesis by blast
qed

text \<open>
  \<^bold>\<open>C10.\<close> A cell of a column that is neither a read nor a write column is skipped
  without being parsed. What the loop over a line returns, an exit code or the array,
  does not depend on the text of such cells: two lines with the same number of cells
  that agree on the cells of the read and write columns among the first sixteen give
  the same result, so no text in a skipped cell makes the loader return 3 or 4. And
  where the loop returns the array, the slot of such a column holds what it held before.
\<close>

theorem unmarked_cells_ignored:
  fixes objs :: "('a::len) word Object list"
  assumes "length (cells line) = length (cells line')"
    and "\<forall>k<length (cells line). k < numObjects \<longrightarrow> (k \<in> rd \<or> k \<in> wr) \<longrightarrow>
           cells line ! k = cells line' ! k"
  shows "parse_cells rd wr line 0 objs = parse_cells rd wr line' 0 objs \<and>
         (\<forall>objs' k. parse_cells rd wr line 0 objs = Inr objs' \<longrightarrow> k \<notin> rd \<longrightarrow> k \<notin> wr \<longrightarrow>
            objs' ! k = objs ! k)"
proof (intro conjI allI impI)
  from assms(2) have "\<forall>n<length (cells line). 0 + n < numObjects \<longrightarrow> (0 + n \<in> rd \<or> 0 + n \<in> wr) \<longrightarrow>
           cells line ! n = cells line' ! n" by simp
  with assms(1) show "parse_cells rd wr line 0 objs = parse_cells rd wr line' 0 objs"
    by (rule parse_cells_same)
next
  fix objs' k
  assume "parse_cells rd wr line 0 objs = Inr objs'" "k \<notin> rd" "k \<notin> wr"
  then show "objs' ! k = objs ! k" by (rule parse_cells_unmarked_slot)
qed

theorem unmarked_cells_ignored_witness:
  "parse_cells {0} {} ''7,not a number'' 0 (fresh_objs zeroed 0) =
     parse_cells {0} {} ''7,8'' 0 (fresh_objs zeroed 0) \<and>
   parse_cells {0} {} ''7,not a number'' 0 (fresh_objs zeroed 0) =
     Inr ((fresh_objs zeroed 0)[0 := \<lparr>valid = True, write_flag = False, object = 7\<rparr>]) \<and>
   ((fresh_objs zeroed 0)[0 := \<lparr>valid = True, write_flag = False, object = 7\<rparr>]) ! 1 =
     fresh_objs zeroed 0 ! 1"
proof -
  have c1: "cells ''7,not a number'' = [''7'', ''not a number'']"
    and c2: "cells ''7,8'' = [''7'', ''8'']"
    by (simp_all add: pieces.simps getline_def)
  have len: "length (cells ''7,not a number'') = length (cells ''7,8'')"
    by (simp add: c1 c2)
  have same: "\<forall>k<length (cells ''7,not a number''). k < numObjects \<longrightarrow> (k \<in> {0} \<or> k \<in> {}) \<longrightarrow>
           cells ''7,not a number'' ! k = cells ''7,8'' ! k"
    by (simp add: c1 c2)
  note inst = unmarked_cells_ignored [where objs = "fresh_objs zeroed 0", OF len same]
  have r: "parse_cells {0} {} ''7,not a number'' 0 (fresh_objs zeroed 0) =
     Inr ((fresh_objs zeroed 0)[0 := \<lparr>valid = True, write_flag = False, object = 7\<rparr>])"
    by (simp add: eval_simps)
  from inst [THEN conjunct1] inst [THEN conjunct2, rule_format, OF r, of 1] r
  show ?thesis by simp
qed

text \<open>
  \<^bold>\<open>C5\<close> says that a slot the loader never stores to has \<open>valid = false\<close>: an empty cell
  of a read or write column gives an invalid slot, and a header without read and write
  columns gives transactions with sixteen invalid slots. The array is declared without
  an initialiser (line 120), so such a slot holds what the memory held. Loading
  \<^verbatim>\<open>s.csv\<close>, with the array of the second line declared over what the first line left,
  submits a second transaction whose slot 0 is a valid read of object 5 although its
  cell is empty; loading \<^verbatim>\<open>n.csv\<close> submits a transaction with a valid slot although no
  column is a read or write column.
\<close>

theorem empty_cell_keeps_stale_object:
  "cells '',7'' ! 0 = [] \<and>
   (\<exists>t0 t1. main stale_fs (leftover 1) [''s.csv''] = (Waiting, [(0, t0), (1, t1)]) \<and>
      t1 ! 0 = \<lparr>valid = True, write_flag = False, object = 5\<rparr> \<and>
      t1 ! 1 = \<lparr>valid = True, write_flag = True, object = 7\<rparr>) \<and>
   (\<exists>t0. main stale_fs (leftover 0) [''n.csv''] = (Waiting, [(0, t0)]) \<and> valid (t0 ! 0))"
  by (simp add: main_def run_tests.simps eval_simps stale_fs_def upt_conv_Cons leftover_def)

text \<open>
  \<^bold>\<open>C8\<close> says that the same file given twice yields two identical sequences of
  transactions, with consecutive identifiers. The identifiers are 0 to 3 here and the
  slots that are stored to agree, but the first line of \<^verbatim>\<open>d.csv\<close> leaves slot 0 alone:
  in the first copy it holds what the memory held at the start, in the second copy what
  the last line of the first copy stored, so the two copies differ in slot 0. This is the
  missing initialiser of C5 again.
\<close>

theorem same_file_twice_differs:
  "\<exists>t0 t1 t2 t3.
     main stale_fs (leftover 2) [''d.csv'', ''d.csv''] =
       (Waiting, [(0, t0), (1, t1), (2, t2), (3, t3)]) \<and>
     t1 = t3 \<and> t0 \<noteq> t2 \<and> \<not> valid (t0 ! 0) \<and> valid (t2 ! 0) \<and> object (t2 ! 0) = 5"
  by (simp add: main_def run_tests.simps eval_simps stale_fs_def upt_conv_Cons leftover_def)

text \<open>
  \<^bold>\<open>C4.\<close> Once the tests are built, by the generator when there is no argument and
  from the files otherwise, \<^verbatim>\<open>main\<close> reaches its final loop after one call of
  \<^verbatim>\<open>enqueueTransaction\<close> per transaction, in the order of the vector: the identifiers
  passed are \<open>0, 1, \<dots>, length tests - 1\<close>, and call \<open>i\<close> passes the sixteen objects of
  \<open>tests ! i\<close>.
\<close>

theorem tests_submitted_in_order:
  fixes uninit :: "nat \<Rightarrow> nat \<Rightarrow> ('a::len) word Object"
  assumes "(args = [] \<and> default_tests uninit = Inr tests) \<or>
           (args \<noteq> [] \<and> load_files fs uninit args [] = Inr tests)"
  shows "\<exists>calls. main fs uninit args = (Waiting, calls) \<and>
           map fst calls = [0..<length tests] \<and> map snd calls = tests"
proof -
  have len: "\<forall>t\<in>set tests. length t = numObjects"
  proof (cases "args = []")
    case True
    with assms default_tests_lengths [of uninit] show ?thesis by auto
  next
    case False
    with assms have "load_files fs uninit args [] = Inr tests" by simp
    from load_files_lengths [OF this] show ?thesis by simp
  qed
  have "main fs uninit args = (Waiting, run_tests tests 0 [])"
    using assms by (auto simp: main_def)
  then show ?thesis
    using run_tests_all [OF len] calls_in_order [of tests] by simp
qed

theorem tests_submitted_in_order_witness:
  "\<exists>calls. main example_fs zeroed [''t.csv''] = (Waiting, calls) \<and>
     map fst calls = [0, 1] \<and>
     map snd calls =
       [(fresh_objs zeroed 0)[0 := \<lparr>valid = True, write_flag = False, object = 3\<rparr>,
                              1 := \<lparr>valid = True, write_flag = True, object = 4\<rparr>],
        (fresh_objs zeroed 1)[0 := \<lparr>valid = True, write_flag = False, object = 5\<rparr>]]"
  using tests_submitted_in_order [where fs = example_fs and uninit = zeroed and args = "[''t.csv'']",
      OF disjI2, OF conjI, OF _ example_load]
  by (simp add: upt_conv_Cons)


end
